theory Spec2Isabelle
  imports Main "HOL-Library.AList"
begin

section \<open>Errors (idb.ts, lines 5-36)\<close>

text \<open>
  A JavaScript error object is modelled by its class, its \<open>name\<close> and \<open>message\<close>
  properties, and the error whose stack was appended to its own stack (the second
  constructor argument of \<open>DatabaseError\<close>). \<open>DOMException\<close> is the class of the
  errors the IndexedDB engine reports; its \<open>name\<close> is the error kind and its message is
  browser specific (left empty here, except where two causes of one kind are told apart). Integers stand for JavaScript numbers throughout:
  the record type of the store holds integer rows, columns and identities.
\<close>

datatype errclass =
  DOMException_class
  | DatabaseError_class
  | DatabaseIndexError_class
  | DatabaseTimeoutError_class
  | TimeoutError_class

datatype jserror =
  JsError (cls: errclass) (name: string) (message: string) (stack: "jserror option")

definition DOMException :: "string \<Rightarrow> string \<Rightarrow> jserror" where
  "DOMException n msg = JsError DOMException_class n msg None"

definition DatabaseError :: "string \<Rightarrow> jserror option \<Rightarrow> jserror" where
  "DatabaseError msg err = JsError DatabaseError_class ''DatabaseError'' msg err"

definition DatabaseIndexError :: jserror where
  "DatabaseIndexError = JsError DatabaseIndexError_class ''DatabaseIndexError'' ''Miss index'' None"

definition DatabaseTimeoutError :: "string \<Rightarrow> jserror option \<Rightarrow> jserror" where
  "DatabaseTimeoutError msg err =
     JsError DatabaseTimeoutError_class ''DatabaseTimeoutError'' msg err"

fun decimal :: "nat \<Rightarrow> string" where
  "decimal n =
     (if n < 10 then [''0123456789'' ! n]
      else decimal (n div 10) @ [''0123456789'' ! (n mod 10)])"

declare decimal.simps [simp del]

definition TimeoutError :: "nat \<Rightarrow> jserror" where
  "TimeoutError time = JsError TimeoutError_class ''TimeoutError'' (''Timeout '' @ decimal time) None"

text \<open>\<open>err instanceof TimeoutError\<close> and \<open>err instanceof DatabaseError\<close> (subclasses included).\<close>

definition instanceof_TimeoutError :: "jserror \<Rightarrow> bool" where
  "instanceof_TimeoutError e = (cls e = TimeoutError_class)"

definition instanceof_DatabaseError :: "jserror \<Rightarrow> bool" where
  "instanceof_DatabaseError e =
     (cls e = DatabaseError_class \<or> cls e = DatabaseIndexError_class
      \<or> cls e = DatabaseTimeoutError_class)"

text \<open>
  The three message literals of the source that are written in Chinese are spelled by
  their Unicode code points.
\<close>

definition MSG_NO_INDEXEDDB :: string where
  "MSG_NO_INDEXEDDB = ''U+6D4F U+89C8 U+5668 U+4E0D U+652F U+6301 indexedDB''"

definition MSG_OPEN_TIMEOUT :: string where
  "MSG_OPEN_TIMEOUT = ''U+6253 U+5F00 U+6570 U+636E U+5E93 U+8D85 U+65F6 U+3002''"

definition MSG_OPEN_FAILED :: string where
  "MSG_OPEN_FAILED = ''U+6253 U+5F00 U+6570 U+636E U+5E93 U+5931 U+8D25 U+3002''"

section \<open>Values and helpers (lines 68-88, 118-137)\<close>

text \<open>
  The values a query component can hold: absent (\<open>undefined\<close>), \<open>null\<close>, or a number. The
  numbers are the integers and \<open>NaN\<close>, which is a number, is not nil, and is no valid key.
\<close>

datatype jsval = Undefined | Null | Num int | NaN

definition isNull :: "jsval \<Rightarrow> bool" where
  "isNull val = (val = Null)"

definition isUndefined :: "jsval \<Rightarrow> bool" where
  "isUndefined val = (val = Undefined)"

definition isNil :: "jsval \<Rightarrow> bool" where
  "isNil val = (isNull val \<or> isUndefined val)"

type_synonym blob = "nat list"

text \<open>
  \<open>ImageMap\<close>: \<open>id?: number\<close> is \<open>None\<close> when the property is absent. \<open>QueryParam\<close>:
  both components are optional and tested with \<open>isNil\<close>, so they are JavaScript values.
\<close>

record ImageMap =
  id_of :: "int option"
  row :: int
  col :: int
  data :: blob

record QueryParam =
  q_row :: jsval
  q_col :: jsval

section \<open>Constants (lines 90-113)\<close>

definition DATABASE_VERSION :: nat where
  "DATABASE_VERSION = 1"

definition OPEN_DB_TIMEOUT :: nat where
  "OPEN_DB_TIMEOUT = 5 * 1000"

definition IMAGE_MAP :: string where
  "IMAGE_MAP = ''image_map''"

definition IDX_ROW_COL :: string where
  "IDX_ROW_COL = ''idx_row_col''"

datatype IDBDatabaseState = OPEN | CLOSING | CLOSED

section \<open>The storage engine: one object store\<close>

text \<open>
  The engine is the browser's IndexedDB, which the program only calls. It is modelled
  as far as the program uses it, following the IndexedDB standard: an object store with
  key path \<open>id\<close> and a key generator (\<open>autoIncrement\<close>), as \<open>createObjectStore\<close> is
  called at line 255, and at most the one index the program creates, \<open>idx_row_col\<close> on
  \<open>[row, col]\<close> with \<open>unique: true\<close> (line 264). A stored record carries its key: the
  engine writes the key into the \<open>id\<close> property of the value. The key generator starts
  at 1, fails above \<open>2 ^ 53\<close>, and is raised past every explicit numeric key that is
  stored.
\<close>

record stored =
  skey :: int
  srow :: int
  scol :: int
  sdata :: blob

record objstore =
  rows :: "stored list"
  keygen :: int
  indexNames :: "string list"

definition MAX_KEY :: int where
  "MAX_KEY = 2 ^ 53"

definition ConstraintError :: jserror where
  "ConstraintError = DOMException ''ConstraintError'' []"

definition ConstraintError_exists :: jserror where
  "ConstraintError_exists = DOMException ''ConstraintError'' ''already exists''"

definition AbortError :: jserror where
  "AbortError = DOMException ''AbortError'' []"

definition NotFoundError :: jserror where
  "NotFoundError = DOMException ''NotFoundError'' []"

definition InvalidStateError :: jserror where
  "InvalidStateError = DOMException ''InvalidStateError'' []"

definition InvalidAccessError :: jserror where
  "InvalidAccessError = DOMException ''InvalidAccessError'' []"

definition DataError :: jserror where
  "DataError = DOMException ''DataError'' []"

definition VersionError :: jserror where
  "VersionError = DOMException ''VersionError'' []"

definition to_ImageMap :: "stored \<Rightarrow> ImageMap" where
  "to_ImageMap s = \<lparr>id_of = Some (skey s), row = srow s, col = scol s, data = sdata s\<rparr>"

definition has_key :: "objstore \<Rightarrow> int \<Rightarrow> bool" where
  "has_key st k = list_ex (\<lambda>x. skey x = k) (rows st)"

text \<open>The unique index refuses a record whose \<open>[row, col]\<close> another record already has.\<close>

definition index_conflict :: "objstore \<Rightarrow> stored \<Rightarrow> bool" where
  "index_conflict st r =
     (IDX_ROW_COL \<in> set (indexNames st) \<and>
      list_ex (\<lambda>x. skey x \<noteq> skey r \<and> srow x = srow r \<and> scol x = scol r) (rows st))"

text \<open>
  The key of a value to store: its \<open>id\<close> when it has one (the generator is then raised
  past it), the generator's next number otherwise.
\<close>

definition key_for :: "objstore \<Rightarrow> ImageMap \<Rightarrow> jserror + (int \<times> objstore)" where
  "key_for st v =
     (case id_of v of
        Some k \<Rightarrow>
          Inr (k, st\<lparr>keygen := (if keygen st \<le> min k MAX_KEY then min k MAX_KEY + 1
                                 else keygen st)\<rparr>)
      | None \<Rightarrow>
          if MAX_KEY < keygen st then Inl ConstraintError
          else Inr (keygen st, st\<lparr>keygen := keygen st + 1\<rparr>))"

text \<open>
  Storing a record: \<open>store.add\<close> sets the no-overwrite flag, \<open>store.put\<close> does not. A
  request that fails leaves the store as it was.
\<close>

definition store_record :: "bool \<Rightarrow> objstore \<Rightarrow> ImageMap \<Rightarrow> jserror + objstore" where
  "store_record no_overwrite st v =
     (case key_for st v of
        Inl e \<Rightarrow> Inl e
      | Inr (k, st1) \<Rightarrow>
          if no_overwrite \<and> has_key st1 k then Inl ConstraintError
          else
            let r = \<lparr>skey = k, srow = row v, scol = col v, sdata = data v\<rparr> in
            if index_conflict st1 r then Inl ConstraintError
            else Inr (st1\<lparr>rows := filter (\<lambda>x. skey x \<noteq> k) (rows st1) @ [r]\<rparr>))"

definition store_add :: "objstore \<Rightarrow> ImageMap \<Rightarrow> jserror + objstore" where
  "store_add st v = store_record True st v"

definition store_put :: "objstore \<Rightarrow> ImageMap \<Rightarrow> jserror + objstore" where
  "store_put st v = store_record False st v"

definition store_delete :: "objstore \<Rightarrow> int \<Rightarrow> objstore" where
  "store_delete st k = st\<lparr>rows := filter (\<lambda>x. skey x \<noteq> k) (rows st)\<rparr>"

text \<open>\<open>index.getAll(IDBKeyRange.only([row, col]))\<close>: the matching records, by primary key.\<close>

definition index_getAll :: "objstore \<Rightarrow> int \<Rightarrow> int \<Rightarrow> ImageMap list" where
  "index_getAll st r c =
     map to_ImageMap (sort_key skey (filter (\<lambda>x. srow x = r \<and> scol x = c) (rows st)))"


section \<open>The database, its connections and its transactions\<close>

text \<open>
  Everything the program shares is in one record: whether \<open>window.indexedDB\<close> is there,
  the version of the database \<open>idb\<close> (0 when it does not exist yet) and its object stores
  by name, the \<open>state\<close> field of every \<open>IDBDatabase\<close> object that \<open>open\<close> has resolved (a
  handle is its position in the list), and the variable \<open>db\<close> that \<open>getSingletonDB\<close>
  closes over.
\<close>

record world =
  has_indexedDB :: bool
  version :: nat
  stores :: "(string \<times> objstore) list"
  handles :: "IDBDatabaseState list"
  singleton :: "nat option"

definition isActive :: "world \<Rightarrow> nat \<Rightarrow> bool" where
  "isActive w db = (db < length (handles w) \<and> handles w ! db = OPEN)"

text \<open>The \<open>close\<close> that \<open>open\<close> installs on a handle (lines 219-224), and the listener of the
  engine's \<open>close\<close> event (lines 231-234).\<close>

definition close :: "nat \<Rightarrow> world \<Rightarrow> world" where
  "close db w = w\<lparr>handles := (handles w)[db := CLOSING, db := CLOSED]\<rparr>"

definition on_close_event :: "nat \<Rightarrow> world \<Rightarrow> world" where
  "on_close_event db w = w\<lparr>handles := (handles w)[db := CLOSED]\<rparr>"

subsection \<open>The upgrade handler of \<open>open\<close> (lines 239-266)\<close>

text \<open>
  \<open>createObjectStore\<close> and \<open>createIndex\<close> of the engine raise a \<open>ConstraintError\<close> when the
  name exists already. \<open>createIndex\<close> is the one call of the program: key path
  \<open>[row, col]\<close>, \<open>unique: true\<close>; when the records already in the store violate the
  uniqueness, the upgrade transaction aborts. The handler returns the schema calls it
  made, in order, with the outcome. \<open>request.transaction\<close> is the upgrade transaction
  whenever the handler runs, so the alternative of line 249 is never taken.
\<close>

datatype schema_call = CreateObjectStore string | CreateIndex string string

definition contains :: "string list \<Rightarrow> string \<Rightarrow> bool" where
  "contains names n = (n \<in> set names)"

definition objectStoreNames :: "(string \<times> objstore) list \<Rightarrow> string list" where
  "objectStoreNames ss = map fst ss"

definition createObjectStore ::
  "(string \<times> objstore) list \<Rightarrow> string \<Rightarrow> jserror + (string \<times> objstore) list" where
  "createObjectStore ss n =
     (if contains (objectStoreNames ss) n then Inl ConstraintError_exists
      else Inr (ss @ [(n, \<lparr>rows = [], keygen = 1, indexNames = []\<rparr>)]))"

definition createIndex :: "objstore \<Rightarrow> string \<Rightarrow> jserror + objstore" where
  "createIndex st n =
     (if contains (indexNames st) n then Inl ConstraintError_exists
      else if \<not> distinct (map (\<lambda>x. (srow x, scol x)) (rows st)) then Inl ConstraintError
      else Inr (st\<lparr>indexNames := indexNames st @ [n]\<rparr>))"

definition onupgradeneeded ::
  "(string \<times> objstore) list \<Rightarrow> schema_call list \<times> (jserror + (string \<times> objstore) list)" where
  "onupgradeneeded ss =
     (let (calls, created) =
        (if \<not> contains (objectStoreNames ss) IMAGE_MAP
         then ([CreateObjectStore IMAGE_MAP], createObjectStore ss IMAGE_MAP)
         else ([], Inr ss))
      in case created of
           Inl e \<Rightarrow> (calls, Inl e)
         | Inr ss1 \<Rightarrow>
             (case map_of ss1 IMAGE_MAP of
                None \<Rightarrow> (calls, Inl NotFoundError)
              | Some imageMapStore \<Rightarrow>
                  if \<not> contains (indexNames imageMapStore) IDX_ROW_COL
                  then (calls @ [CreateIndex IMAGE_MAP IDX_ROW_COL],
                        case createIndex imageMapStore IDX_ROW_COL of
                          Inl e \<Rightarrow> Inl e
                        | Inr st \<Rightarrow> Inr (AList.update IMAGE_MAP st ss1))
                  else (calls, Inr ss1)))"

subsection \<open>\<open>open\<close> (lines 193-268)\<close>

text \<open>
  What the engine does with the open request is given from outside: it reports an
  error, it reports the request blocked, or it proceeds. When it proceeds it compares
  versions: a stored version above the requested one is a \<open>VersionError\<close>, one below runs
  the upgrade handler (a failing handler aborts the upgrade, the database stays as it
  was and the request fails with \<open>AbortError\<close>), and then \<open>onsuccess\<close> creates the handle
  in state \<open>OPEN\<close>.
\<close>

datatype open_event = EngineError jserror | EngineBlocked | EngineProceeds

definition onsuccess :: "world \<Rightarrow> (jserror + nat) \<times> world" where
  "onsuccess w = (Inr (length (handles w)), w\<lparr>handles := handles w @ [OPEN]\<rparr>)"

definition idb_open :: "open_event \<Rightarrow> world \<Rightarrow> (jserror + nat) \<times> world" where
  "idb_open ev w =
     (if \<not> has_indexedDB w then (Inl (DatabaseError MSG_NO_INDEXEDDB None), w)
      else case ev of
        EngineError e \<Rightarrow> (Inl e, w)
      | EngineBlocked \<Rightarrow> (Inl (DatabaseError ''IDB Blocked'' None), w)
      | EngineProceeds \<Rightarrow>
          if DATABASE_VERSION < version w then (Inl VersionError, w)
          else if version w < DATABASE_VERSION then
            (case snd (onupgradeneeded (stores w)) of
               Inl e \<Rightarrow> (Inl AbortError, w)
             | Inr ss \<Rightarrow> onsuccess (w\<lparr>version := DATABASE_VERSION, stores := ss\<rparr>))
          else onsuccess w)"

subsection \<open>\<open>getSingletonDB\<close> (lines 274-308)\<close>

text \<open>
  The function suspends once, at the \<open>await\<close> of the race between the timer and \<open>open\<close>.
  \<open>getSingletonDB_enter\<close> is the part before the \<open>await\<close>, \<open>getSingletonDB_resume\<close> the part
  after it, given how the race ended. The value returned at line 306 is the variable
  \<open>db\<close>, which both branches of lines 290-294 leave defined.
\<close>

datatype entered = Returned nat | Awaiting

datatype race_result = TimerWins | OpenSettles open_event

definition getSingletonDB_enter :: "world \<Rightarrow> entered \<times> world" where
  "getSingletonDB_enter w =
     (case singleton w of
        Some db \<Rightarrow> if isActive w db then (Returned db, w) else (Awaiting, w\<lparr>singleton := None\<rparr>)
      | None \<Rightarrow> (Awaiting, w\<lparr>singleton := None\<rparr>))"

definition open_catch :: "jserror \<Rightarrow> jserror" where
  "open_catch err =
     (if instanceof_TimeoutError err then DatabaseTimeoutError MSG_OPEN_TIMEOUT None
      else DatabaseError MSG_OPEN_FAILED (Some err))"

definition getSingletonDB_resume :: "race_result \<Rightarrow> world \<Rightarrow> (jserror + nat) \<times> world" where
  "getSingletonDB_resume r w =
     (case r of
        TimerWins \<Rightarrow> (Inl (open_catch (TimeoutError OPEN_DB_TIMEOUT)), w)
      | OpenSettles ev \<Rightarrow>
          (case idb_open ev w of
             (Inl err, w1) \<Rightarrow> (Inl (open_catch err), w1)
           | (Inr db', w1) \<Rightarrow>
               (case singleton w1 of
                  Some db \<Rightarrow>
                    if isActive w1 db then (Inr db, close db' w1)
                    else (Inr db', w1\<lparr>singleton := Some db'\<rparr>)
                | None \<Rightarrow> (Inr db', w1\<lparr>singleton := Some db'\<rparr>))))"

text \<open>
  A call that no other call overlaps. The engine's answer comes with the time, in
  milliseconds after the call, at which \<open>open\<close> settles (\<open>None\<close>: never). The timer is set
  for \<open>OPEN_DB_TIMEOUT\<close>; \<open>open\<close> wins the race when it settles earlier. Without
  \<open>window.indexedDB\<close>, \<open>open\<close> throws at once.
\<close>

record open_run =
  settles_at :: "nat option"
  engine :: open_event

definition race_of :: "open_run \<Rightarrow> world \<Rightarrow> race_result" where
  "race_of run w =
     (if \<not> has_indexedDB w then OpenSettles (engine run)
      else case settles_at run of
        None \<Rightarrow> TimerWins
      | Some t \<Rightarrow> if t < OPEN_DB_TIMEOUT then OpenSettles (engine run) else TimerWins)"

definition getSingletonDB :: "open_run \<Rightarrow> world \<Rightarrow> (jserror + nat) \<times> world" where
  "getSingletonDB run w =
     (case getSingletonDB_enter w of
        (Returned db, w1) \<Rightarrow> (Inr db, w1)
      | (Awaiting, w1) \<Rightarrow> getSingletonDB_resume (race_of run w1) w1)"

subsection \<open>Transactions and requests\<close>

text \<open>
  A transaction works on its own view of the stores and keeps the requests placed on it,
  in order. The engine runs the requests of a transaction in the order they were placed,
  so a request is run when it is placed. A request that fails is not handled by the
  program (no listener calls \<open>preventDefault\<close>), so the transaction aborts with the error
  of the first request that failed; every request after it ends with \<open>AbortError\<close>. When
  the transaction is over the engine writes the view back, unless it aborted.
\<close>

datatype IDBTransactionMode = Readonly | Readwrite

datatype request = GetAll string int int | Add ImageMap | Put ImageMap | Delete int

record IDBTransaction =
  tx_db :: nat
  tx_names :: "string list"
  tx_mode :: IDBTransactionMode
  tx_view :: "(string \<times> objstore) list"
  tx_log :: "request list"
  tx_error :: "jserror option"

definition db_transaction ::
  "nat \<Rightarrow> string list \<Rightarrow> IDBTransactionMode \<Rightarrow> world \<Rightarrow> jserror + IDBTransaction" where
  "db_transaction db storeNames mode w =
     (if \<not> isActive w db then Inl InvalidStateError
      else if list_ex (\<lambda>n. \<not> contains (objectStoreNames (stores w)) n) storeNames
        then Inl NotFoundError
      else if storeNames = [] then Inl InvalidAccessError
      else Inr \<lparr>tx_db = db, tx_names = storeNames, tx_mode = mode, tx_view = stores w,
                tx_log = [], tx_error = None\<rparr>)"

definition beginTransaction ::
  "open_run \<Rightarrow> string list \<Rightarrow> IDBTransactionMode \<Rightarrow> world \<Rightarrow> (jserror + IDBTransaction) \<times> world"
  where
  "beginTransaction run storeNames mode w =
     (case getSingletonDB run w of
        (Inl e, w1) \<Rightarrow> (Inl e, w1)
      | (Inr db, w1) \<Rightarrow> (db_transaction db storeNames mode w1, w1))"

definition objectStore :: "IDBTransaction \<Rightarrow> string \<Rightarrow> jserror + objstore" where
  "objectStore tx n =
     (if contains (tx_names tx) n then
        (case map_of (tx_view tx) n of None \<Rightarrow> Inl NotFoundError | Some st \<Rightarrow> Inr st)
      else Inl NotFoundError)"

definition store_index :: "objstore \<Rightarrow> string \<Rightarrow> jserror + string" where
  "store_index st n = (if contains (indexNames st) n then Inr n else Inl NotFoundError)"

datatype 'a req_event = ReqSuccess 'a | ReqError jserror

definition getAll_request ::
  "IDBTransaction \<Rightarrow> objstore \<Rightarrow> string \<Rightarrow> int \<Rightarrow> int \<Rightarrow> ImageMap list req_event \<times> IDBTransaction"
  where
  "getAll_request tx st idx r c =
     (let tx1 = tx\<lparr>tx_log := tx_log tx @ [GetAll idx r c]\<rparr> in
      if tx_error tx \<noteq> None then (ReqError AbortError, tx1)
      else (ReqSuccess (index_getAll st r c), tx1))"

definition exec_write :: "request \<Rightarrow> objstore \<Rightarrow> jserror + objstore" where
  "exec_write req st =
     (case req of
        Add v \<Rightarrow> store_add st v
      | Put v \<Rightarrow> store_put st v
      | Delete k \<Rightarrow> Inr (store_delete st k)
      | GetAll idx r c \<Rightarrow> Inr st)"

text \<open>A write placed through the store object of name \<open>n\<close>, which the transaction has in
  its view whenever the program holds that store object.\<close>

definition write_request :: "IDBTransaction \<Rightarrow> string \<Rightarrow> request \<Rightarrow> IDBTransaction" where
  "write_request tx n req =
     (let tx1 = tx\<lparr>tx_log := tx_log tx @ [req]\<rparr> in
      if tx_error tx \<noteq> None then tx1
      else case map_of (tx_view tx) n of
        None \<Rightarrow> tx1
      | Some st \<Rightarrow>
          (case exec_write req st of
             Inl e \<Rightarrow> tx1\<lparr>tx_error := Some e\<rparr>
           | Inr st1 \<Rightarrow> tx1\<lparr>tx_view := AList.update n st1 (tx_view tx)\<rparr>))"

definition engine_finish :: "IDBTransaction \<Rightarrow> world \<Rightarrow> world" where
  "engine_finish tx w = (if tx_error tx = None then w\<lparr>stores := tx_view tx\<rparr> else w)"

subsection \<open>\<open>request2promise\<close> and \<open>transaction2promise\<close> (lines 157-185)\<close>

text \<open>
  \<open>request2promise\<close> takes \<open>request.transaction\<close> (absent for a request that belongs to no
  transaction) and the event the request ends with. When an error event fires,
  \<open>request.error\<close> is set, so the test \<open>err &&\<close> holds. \<open>transaction2promise\<close> takes the
  first event of the transaction: \<open>complete\<close>, \<open>error\<close> (bubbling from the request that
  failed, with that request's error) or \<open>abort\<close>; the promise settles on the first one.
\<close>

definition request2promise ::
  "IDBTransaction option \<Rightarrow> 'a req_event \<Rightarrow> world \<Rightarrow> (jserror + 'a) \<times> world" where
  "request2promise request_transaction ev w =
     (case ev of
        ReqError err \<Rightarrow>
          (Inl err,
           if name err = ''InvalidStateError''
           then (case request_transaction of Some tx \<Rightarrow> close (tx_db tx) w | None \<Rightarrow> w)
           else w)
      | ReqSuccess result \<Rightarrow> (Inr result, w))"

datatype tx_event = Complete | ErrorEvent jserror | Abort

definition transaction2promise ::
  "IDBTransaction \<Rightarrow> tx_event \<Rightarrow> world \<Rightarrow> (jserror + unit) \<times> world" where
  "transaction2promise tx ev w =
     (case ev of
        Complete \<Rightarrow> (Inr (), w)
      | ErrorEvent err \<Rightarrow>
          (Inl err, if name err = ''InvalidStateError'' then close (tx_db tx) w else w)
      | Abort \<Rightarrow> (Inl (DatabaseError ''Transaction aborted'' None), w))"

definition tx_outcome :: "IDBTransaction \<Rightarrow> tx_event" where
  "tx_outcome tx = (case tx_error tx of None \<Rightarrow> Complete | Some e \<Rightarrow> ErrorEvent e)"

subsection \<open>\<open>getImageMaps\<close> (lines 423-437)\<close>

text \<open>
  \<open>getImageMaps_in\<close> is the function from line 425 on, with the transaction in hand; it
  returns the transaction with the request it placed. \<open>getImageMaps\<close> first takes the
  transaction of the options or begins one. A component that is not nil is a number;
  \<open>IDBKeyRange.only\<close> (line 430, after the index is taken) raises \<open>DataError\<close> when one of
  them is \<open>NaN\<close>, and then no request is placed.
\<close>

record QueryOptions =
  transaction :: "IDBTransaction option"

definition getImageMaps_in ::
  "IDBTransaction \<Rightarrow> QueryParam \<Rightarrow> world \<Rightarrow> (jserror + ImageMap list) \<times> IDBTransaction \<times> world"
  where
  "getImageMaps_in tx query w =
     (case objectStore tx IMAGE_MAP of
        Inl e \<Rightarrow> (Inl e, tx, w)
      | Inr store \<Rightarrow>
          if \<not> isNil (q_row query) \<and> \<not> isNil (q_col query) then
            (case store_index store IDX_ROW_COL of
               Inl e \<Rightarrow> (Inl e, tx, w)
             | Inr queryIndex \<Rightarrow>
                 (case (q_row query, q_col query) of
                    (Num r, Num c) \<Rightarrow>
                      (case getAll_request tx store queryIndex r c of
                         (ev, tx1) \<Rightarrow>
                           (case request2promise (Some tx1) ev w of
                              (res, w1) \<Rightarrow> (res, tx1, w1)))
                  | _ \<Rightarrow> (Inl DataError, tx, w)))
          else (Inl DatabaseIndexError, tx, w))"

definition getImageMaps ::
  "open_run \<Rightarrow> QueryParam \<Rightarrow> QueryOptions \<Rightarrow> world \<Rightarrow>
     (jserror + ImageMap list) \<times> IDBTransaction option \<times> world" where
  "getImageMaps run query options w =
     (case (case transaction options of
              Some tx \<Rightarrow> (Inr tx, w)
            | None \<Rightarrow> beginTransaction run [IMAGE_MAP] Readonly w) of
        (Inl e, w1) \<Rightarrow> (Inl e, None, w1)
      | (Inr tx, w1) \<Rightarrow>
          (case getImageMaps_in tx query w1 of (res, tx1, w2) \<Rightarrow> (res, Some tx1, w2)))"

section \<open>The three upserts (lines 345-421)\<close>

text \<open>
  The argument is one record or an array of records. Inside the loops the lookup is
  \<open>getImageMaps\<close> with the transaction of the upsert in its options, that is
  \<open>getImageMaps_in\<close>; \<open>imageMap'\<close> (in the source \<open>_imageMap\<close>) is the first record found, if
  any. A loop returns
  \<open>Some e\<close> when an awaited lookup threw \<open>e\<close>, which ends the upsert at once.
\<close>

datatype upsert_arg = Single ImageMap | Array "ImageMap list"

definition as_array :: "upsert_arg \<Rightarrow> ImageMap list" where
  "as_array imageMaps = (case imageMaps of Single imageMap \<Rightarrow> [imageMap] | Array xs \<Rightarrow> xs)"

definition key_query :: "ImageMap \<Rightarrow> QueryParam" where
  "key_query imageMap = \<lparr>q_row = Num (row imageMap), q_col = Num (col imageMap)\<rparr>"

text \<open>\<open>setImageMap\<close>: delete the record found when its \<open>id\<close> is truthy, then add.\<close>

definition setImageMap_writes :: "IDBTransaction \<Rightarrow> ImageMap list \<Rightarrow> ImageMap \<Rightarrow> IDBTransaction"
  where
  "setImageMap_writes tx found imageMap =
     write_request
       (case found of
          [] \<Rightarrow> tx
        | imageMap' # _ \<Rightarrow>
            (case id_of imageMap' of
               None \<Rightarrow> tx
             | Some i \<Rightarrow> if i \<noteq> 0 then write_request tx IMAGE_MAP (Delete i) else tx))
       IMAGE_MAP (Add imageMap)"

fun setImageMap_loop ::
  "IDBTransaction \<Rightarrow> ImageMap list \<Rightarrow> world \<Rightarrow> jserror option \<times> IDBTransaction \<times> world" where
  "setImageMap_loop tx [] w = (None, tx, w)"
| "setImageMap_loop tx (imageMap # rest) w =
     (case getImageMaps_in tx (key_query imageMap) w of
        (Inl e, tx1, w1) \<Rightarrow> (Some e, tx1, w1)
      | (Inr found, tx1, w1) \<Rightarrow> setImageMap_loop (setImageMap_writes tx1 found imageMap) rest w1)"

definition setImageMap :: "open_run \<Rightarrow> upsert_arg \<Rightarrow> world \<Rightarrow> (jserror + unit) \<times> world" where
  "setImageMap run imageMaps w =
     (case beginTransaction run [IMAGE_MAP] Readwrite w of
        (Inl e, w1) \<Rightarrow> (Inl e, w1)
      | (Inr tx, w1) \<Rightarrow>
          (case objectStore tx IMAGE_MAP of
             Inl e \<Rightarrow> (Inl e, engine_finish tx w1)
           | Inr store \<Rightarrow>
               (case setImageMap_loop tx (as_array imageMaps) w1 of
                  (Some e, tx1, w2) \<Rightarrow> (Inl e, engine_finish tx1 w2)
                | (None, tx1, w2) \<Rightarrow>
                    transaction2promise tx1 (tx_outcome tx1) (engine_finish tx1 w2))))"

text \<open>\<open>setImageMap2\<close>: put under the \<open>id\<close> of the record found, add when none is found.\<close>

definition setImageMap2_writes :: "IDBTransaction \<Rightarrow> ImageMap list \<Rightarrow> ImageMap \<Rightarrow> IDBTransaction"
  where
  "setImageMap2_writes tx found imageMap =
     (case found of
        [] \<Rightarrow> write_request tx IMAGE_MAP (Add imageMap)
      | imageMap' # _ \<Rightarrow>
          write_request tx IMAGE_MAP (Put (imageMap\<lparr>id_of := id_of imageMap'\<rparr>)))"

fun setImageMap2_loop ::
  "IDBTransaction \<Rightarrow> ImageMap list \<Rightarrow> world \<Rightarrow> jserror option \<times> IDBTransaction \<times> world" where
  "setImageMap2_loop tx [] w = (None, tx, w)"
| "setImageMap2_loop tx (imageMap # rest) w =
     (case getImageMaps_in tx (key_query imageMap) w of
        (Inl e, tx1, w1) \<Rightarrow> (Some e, tx1, w1)
      | (Inr found, tx1, w1) \<Rightarrow> setImageMap2_loop (setImageMap2_writes tx1 found imageMap) rest w1)"

definition setImageMap2 :: "open_run \<Rightarrow> upsert_arg \<Rightarrow> world \<Rightarrow> (jserror + unit) \<times> world" where
  "setImageMap2 run imageMaps w =
     (case beginTransaction run [IMAGE_MAP] Readwrite w of
        (Inl e, w1) \<Rightarrow> (Inl e, w1)
      | (Inr tx, w1) \<Rightarrow>
          (case objectStore tx IMAGE_MAP of
             Inl e \<Rightarrow> (Inl e, engine_finish tx w1)
           | Inr store \<Rightarrow>
               (case setImageMap2_loop tx (as_array imageMaps) w1 of
                  (Some e, tx1, w2) \<Rightarrow> (Inl e, engine_finish tx1 w2)
                | (None, tx1, w2) \<Rightarrow>
                    transaction2promise tx1 (tx_outcome tx1) (engine_finish tx1 w2))))"

text \<open>
  \<open>setImageMap3\<close>: \<open>map\<close> calls \<open>getImageMaps\<close> for every record before any callback runs,
  so all lookups are placed first; the callback of each lookup that succeeded then places
  its write (put under a truthy \<open>id\<close>, add otherwise), in the order of the lookups.
  \<open>Promise.all\<close> rejects with the first rejection: a lookup that threw rejects its task at
  once, before any event of the transaction.
\<close>

fun setImageMap3_lookups ::
  "IDBTransaction \<Rightarrow> ImageMap list \<Rightarrow> world \<Rightarrow>
     (ImageMap \<times> (jserror + ImageMap list)) list \<times> IDBTransaction \<times> world" where
  "setImageMap3_lookups tx [] w = ([], tx, w)"
| "setImageMap3_lookups tx (imageMap # rest) w =
     (case getImageMaps_in tx (key_query imageMap) w of
        (res, tx1, w1) \<Rightarrow>
          (case setImageMap3_lookups tx1 rest w1 of
             (tasks, tx2, w2) \<Rightarrow> ((imageMap, res) # tasks, tx2, w2)))"

definition setImageMap3_write :: "IDBTransaction \<Rightarrow> ImageMap list \<Rightarrow> ImageMap \<Rightarrow> IDBTransaction"
  where
  "setImageMap3_write tx found imageMap =
     (case found of
        [] \<Rightarrow> write_request tx IMAGE_MAP (Add imageMap)
      | imageMap' # _ \<Rightarrow>
          (case id_of imageMap' of
             None \<Rightarrow> write_request tx IMAGE_MAP (Add imageMap)
           | Some i \<Rightarrow>
               if i \<noteq> 0
               then write_request tx IMAGE_MAP (Put (imageMap\<lparr>id_of := id_of imageMap'\<rparr>))
               else write_request tx IMAGE_MAP (Add imageMap)))"

fun setImageMap3_writes ::
  "IDBTransaction \<Rightarrow> (ImageMap \<times> (jserror + ImageMap list)) list \<Rightarrow> IDBTransaction" where
  "setImageMap3_writes tx [] = tx"
| "setImageMap3_writes tx ((imageMap, Inl e) # tasks) = setImageMap3_writes tx tasks"
| "setImageMap3_writes tx ((imageMap, Inr found) # tasks) =
     setImageMap3_writes (setImageMap3_write tx found imageMap) tasks"

fun is_found :: "ImageMap \<times> (jserror + ImageMap list) \<Rightarrow> bool" where
  "is_found (imageMap, Inr found) = True"
| "is_found (imageMap, Inl e) = False"

fun first_rejection :: "(ImageMap \<times> (jserror + ImageMap list)) list \<Rightarrow> jserror option" where
  "first_rejection [] = None"
| "first_rejection ((imageMap, Inl e) # tasks) = Some e"
| "first_rejection ((imageMap, Inr found) # tasks) = first_rejection tasks"

definition setImageMap3 :: "open_run \<Rightarrow> upsert_arg \<Rightarrow> world \<Rightarrow> (jserror + unit) \<times> world" where
  "setImageMap3 run imageMaps w =
     (case beginTransaction run [IMAGE_MAP] Readwrite w of
        (Inl e, w1) \<Rightarrow> (Inl e, w1)
      | (Inr tx, w1) \<Rightarrow>
          (case objectStore tx IMAGE_MAP of
             Inl e \<Rightarrow> (Inl e, engine_finish tx w1)
           | Inr store \<Rightarrow>
               (case setImageMap3_lookups tx (as_array imageMaps) w1 of
                  (tasks, tx1, w2) \<Rightarrow>
                    (let tx2 = setImageMap3_writes tx1 tasks in
                     case transaction2promise tx2 (tx_outcome tx2) (engine_finish tx2 w2) of
                       (done, w3) \<Rightarrow>
                         (case first_rejection tasks of
                            Some e \<Rightarrow> (Inl e, w3)
                          | None \<Rightarrow> (done, w3))))))"

section \<open>Overlapping calls of \<open>getSingletonDB\<close>\<close>

text \<open>
  Calls of \<open>getSingletonDB\<close> interleave only at their \<open>await\<close>, so a run of the program
  is a sequence of events, each running one part of one call to its end. \<open>Call\<close>: a new
  call runs up to the \<open>await\<close>. \<open>Settle i e\<close>: the \<open>open\<close> of the pending call \<open>i\<close> settles
  first, with the engine's answer \<open>e\<close>, and the call runs to its end. \<open>Timer i\<close>: the timer
  of the pending call \<open>i\<close> fires first and the call rejects; its open request stays with
  the engine, as does a request that was only reported blocked. \<open>Late i e\<close>: such a
  request ends after its call has rejected: \<open>onsuccess\<close> still creates the handle, and no
  code is waiting for it. \<open>HandleClosed db\<close>: the handle is closed, by \<open>close\<close> or by the
  engine.
\<close>

datatype call_state = Pending | Orphaned "jserror + nat" | Finished "jserror + nat"

datatype event =
  Call | Settle nat open_event | Timer nat | Late nat open_event | HandleClosed nat

record system =
  sys_world :: world
  calls :: "call_state list"

fun is_Orphaned :: "call_state \<Rightarrow> bool" where
  "is_Orphaned (Orphaned r) = True"
| "is_Orphaned c = False"

fun outcome :: "call_state \<Rightarrow> (jserror + nat) option" where
  "outcome Pending = None"
| "outcome (Orphaned r) = Some r"
| "outcome (Finished r) = Some r"

definition step :: "event \<Rightarrow> system \<Rightarrow> system" where
  "step ev s =
     (case ev of
        Call \<Rightarrow>
          (case getSingletonDB_enter (sys_world s) of
             (Returned db, w1) \<Rightarrow> \<lparr>sys_world = w1, calls = calls s @ [Finished (Inr db)]\<rparr>
           | (Awaiting, w1) \<Rightarrow> \<lparr>sys_world = w1, calls = calls s @ [Pending]\<rparr>)
      | Settle i e \<Rightarrow>
          if i < length (calls s) \<and> calls s ! i = Pending then
            (case getSingletonDB_resume (OpenSettles e) (sys_world s) of
               (res, w1) \<Rightarrow>
                 \<lparr>sys_world = w1,
                  calls = (calls s)[i := if e = EngineBlocked \<and> has_indexedDB (sys_world s)
                                         then Orphaned res else Finished res]\<rparr>)
          else s
      | Timer i \<Rightarrow>
          if i < length (calls s) \<and> calls s ! i = Pending \<and> has_indexedDB (sys_world s) then
            (case getSingletonDB_resume TimerWins (sys_world s) of
               (res, w1) \<Rightarrow> \<lparr>sys_world = w1, calls = (calls s)[i := Orphaned res]\<rparr>)
          else s
      | Late i e \<Rightarrow>
          if i < length (calls s) \<and> is_Orphaned (calls s ! i) \<and> e \<noteq> EngineBlocked then
            (case outcome (calls s ! i) of
               None \<Rightarrow> s
             | Some res \<Rightarrow>
                 \<lparr>sys_world = snd (idb_open e (sys_world s)),
                  calls = (calls s)[i := Finished res]\<rparr>)
          else s
      | HandleClosed db \<Rightarrow> s\<lparr>sys_world := close db (sys_world s)\<rparr>)"

definition run_events :: "event list \<Rightarrow> system \<Rightarrow> system" where
  "run_events evs s = foldl (\<lambda>s ev. step ev s) s evs"

definition init :: "world \<Rightarrow> system" where
  "init w = \<lparr>sys_world = w, calls = []\<rparr>"

fun is_Late :: "event \<Rightarrow> bool" where
  "is_Late (Late i e) = True"
| "is_Late ev = False"

fun is_HandleClosed :: "event \<Rightarrow> bool" where
  "is_HandleClosed (HandleClosed db) = True"
| "is_HandleClosed ev = False"

fun is_resolved :: "call_state \<Rightarrow> bool" where
  "is_resolved (Finished (Inr db)) = True"
| "is_resolved c = False"

definition count_open :: "world \<Rightarrow> nat" where
  "count_open w = length (filter (\<lambda>x. x = OPEN) (handles w))"

definition all_settled :: "system \<Rightarrow> bool" where
  "all_settled s = list_all (\<lambda>c. c \<noteq> Pending) (calls s)"

text \<open>The variable \<open>db\<close> holds nothing or a handle that \<open>open\<close> has created.\<close>

definition singleton_exists :: "world \<Rightarrow> bool" where
  "singleton_exists w =
     (case singleton w of None \<Rightarrow> True | Some db \<Rightarrow> db < length (handles w))"

text \<open>Every handle that is open is the current session.\<close>

definition only_current_open :: "world \<Rightarrow> bool" where
  "only_current_open w = (\<forall>db. isActive w db \<longrightarrow> singleton w = Some db)"

definition conn_inv :: "system \<Rightarrow> bool" where
  "conn_inv s = (singleton_exists (sys_world s) \<and> only_current_open (sys_world s))"

text \<open>Every call that has resolved holds the current session, and that session is open.\<close>

definition resolved_inv :: "system \<Rightarrow> bool" where
  "resolved_inv s =
     (\<forall>c \<in> set (calls s). \<forall>db. c = Finished (Inr db) \<longrightarrow>
        isActive (sys_world s) db \<and> singleton (sys_world s) = Some db)"

section \<open>Properties of the store\<close>

definition at_pair :: "objstore \<Rightarrow> int \<Rightarrow> int \<Rightarrow> stored list" where
  "at_pair st r c = filter (\<lambda>x. srow x = r \<and> scol x = c) (rows st)"

definition pairs_unique :: "objstore \<Rightarrow> bool" where
  "pairs_unique st = distinct (map (\<lambda>x. (srow x, scol x)) (rows st))"

definition keys_distinct :: "objstore \<Rightarrow> bool" where
  "keys_distinct st = distinct (map skey (rows st))"

definition keygen_ok :: "objstore \<Rightarrow> bool" where
  "keygen_ok st = list_all (\<lambda>x. min (skey x) MAX_KEY < keygen st) (rows st)"

text \<open>A store as the upgrade handler creates it and the engine keeps it.\<close>

definition wf_store :: "objstore \<Rightarrow> bool" where
  "wf_store st =
     (pairs_unique st \<and> keys_distinct st \<and> keygen_ok st \<and> contains (indexNames st) IDX_ROW_COL)"

definition image_map_store :: "world \<Rightarrow> objstore option" where
  "image_map_store w = map_of (stores w) IMAGE_MAP"

definition unique_pairs :: "world \<Rightarrow> bool" where
  "unique_pairs w = (case image_map_store w of None \<Rightarrow> True | Some st \<Rightarrow> pairs_unique st)"

text \<open>The same of the store as a transaction sees it, and whether that store has the index.\<close>

definition tx_unique :: "IDBTransaction \<Rightarrow> bool" where
  "tx_unique tx =
     (case map_of (tx_view tx) IMAGE_MAP of None \<Rightarrow> True | Some st \<Rightarrow> pairs_unique st)"

definition tx_indexed :: "IDBTransaction \<Rightarrow> bool" where
  "tx_indexed tx =
     (case map_of (tx_view tx) IMAGE_MAP of
        None \<Rightarrow> True
      | Some st \<Rightarrow> contains (indexNames st) IDX_ROW_COL)"

text \<open>A transaction that has not aborted, with the store as it sees it.\<close>

definition tx_ok :: "IDBTransaction \<Rightarrow> objstore \<Rightarrow> bool" where
  "tx_ok tx st =
     (tx_error tx = None \<and> map_of (tx_view tx) IMAGE_MAP = Some st
      \<and> contains (tx_names tx) IMAGE_MAP)"

text \<open>Every record of the first store is still there in the second, under its key.\<close>

definition keys_kept :: "objstore \<Rightarrow> objstore \<Rightarrow> bool" where
  "keys_kept st0 st =
     (\<forall>r c m. at_pair st0 r c = [m] \<longrightarrow> (\<exists>x. at_pair st r c = [x] \<and> skey x = skey m))"

text \<open>The tasks of \<open>setImageMap3\<close> when every lookup succeeds on the store \<open>st0\<close>.\<close>

definition tasks_of ::
  "objstore \<Rightarrow> ImageMap list \<Rightarrow> (ImageMap \<times> (jserror + ImageMap list)) list" where
  "tasks_of st0 imageMaps = map (\<lambda>v. (v, Inr (index_getAll st0 (row v) (col v)))) imageMaps"

text \<open>The last record of a batch with the given row and column.\<close>

fun last_with :: "int \<Rightarrow> int \<Rightarrow> ImageMap list \<Rightarrow> ImageMap option" where
  "last_with r c [] = None"
| "last_with r c (x # xs) =
     (case last_with r c xs of
        Some y \<Rightarrow> Some y
      | None \<Rightarrow> if row x = r \<and> col x = c then Some x else None)"

section \<open>Example states\<close>

text \<open>
  \<open>fresh_world\<close>: a page before its first \<open>open\<close>, the database not yet created.
  \<open>ex_world\<close>: the database bootstrapped, one record stored, one session open and
  current. \<open>ex_tx\<close>: a transaction of that session on the store.
\<close>

definition fresh_world :: world where
  "fresh_world =
     \<lparr>has_indexedDB = True, version = 0, stores = [], handles = [], singleton = None\<rparr>"

definition ex_store :: objstore where
  "ex_store =
     \<lparr>rows = [\<lparr>skey = 1, srow = 0, scol = 0, sdata = [1]\<rparr>], keygen = 2,
      indexNames = [IDX_ROW_COL]\<rparr>"

definition ex_world :: world where
  "ex_world =
     \<lparr>has_indexedDB = True, version = 1, stores = [(IMAGE_MAP, ex_store)], handles = [OPEN],
      singleton = Some 0\<rparr>"

text \<open>\<open>zero_world\<close>: the same with the one record stored under the key 0, as an upsert of
  a record with \<open>id: 0\<close> into the empty store leaves it.\<close>

definition zero_world :: world where
  "zero_world =
     \<lparr>has_indexedDB = True, version = 1,
      stores = [(IMAGE_MAP, \<lparr>rows = [\<lparr>skey = 0, srow = 0, scol = 0, sdata = [1]\<rparr>],
                              keygen = 1, indexNames = [IDX_ROW_COL]\<rparr>)],
      handles = [OPEN], singleton = Some 0\<rparr>"

definition ex_tx :: IDBTransaction where
  "ex_tx =
     \<lparr>tx_db = 0, tx_names = [IMAGE_MAP], tx_mode = Readwrite,
      tx_view = [(IMAGE_MAP, ex_store)], tx_log = [], tx_error = None\<rparr>"

definition quick :: open_run where
  "quick = \<lparr>settles_at = Some 10, engine = EngineProceeds\<rparr>"

definition stalled :: open_run where
  "stalled = \<lparr>settles_at = None, engine = EngineProceeds\<rparr>"

section \<open>The connection manager: timeout, blocked open, stale sessions\<close>

lemma getSingletonDB_timer:
  assumes "has_indexedDB w" and "\<forall>db. singleton w = Some db \<longrightarrow> \<not> isActive w db"
    and "settles_at run = None \<or> settles_at run = Some t \<and> OPEN_DB_TIMEOUT \<le> t"
  shows "getSingletonDB run w
     = (Inl (DatabaseTimeoutError MSG_OPEN_TIMEOUT None), w\<lparr>singleton := None\<rparr>)"
  using assms
  by (auto simp: getSingletonDB_def getSingletonDB_enter_def getSingletonDB_resume_def race_of_def
      open_catch_def instanceof_TimeoutError_def TimeoutError_def split: option.splits)

lemma getSingletonDB_open_settles:
  assumes "has_indexedDB w" and "\<forall>db. singleton w = Some db \<longrightarrow> \<not> isActive w db"
    and "settles_at run = Some t" and "t < OPEN_DB_TIMEOUT"
  shows "getSingletonDB run w
     = getSingletonDB_resume (OpenSettles (engine run)) (w\<lparr>singleton := None\<rparr>)"
  using assms
  by (auto simp: getSingletonDB_def getSingletonDB_enter_def race_of_def split: option.splits)

lemma close_not_active: "\<not> isActive (close db w) db"
  by (simp add: isActive_def close_def)

lemma close_state: "db < length (handles w) \<Longrightarrow> handles (close db w) ! db = CLOSED"
  by (simp add: close_def)

text \<open>
  Claim C5. When no session is current and open, and the engine's \<open>open\<close> settles later
  than \<open>OPEN_DB_TIMEOUT\<close> = 5000 ms after the call or never, \<open>getSingletonDB\<close> rejects with
  \<open>DatabaseTimeoutError\<close>: it does not hang. That error differs in class and name from the
  \<open>DatabaseError\<close> which every other failure of \<open>open\<close> is turned into.
\<close>

theorem C5_open_timeout:
  assumes "has_indexedDB w" and "\<forall>db. singleton w = Some db \<longrightarrow> \<not> isActive w db"
    and "settles_at run = None \<or> settles_at run = Some t \<and> OPEN_DB_TIMEOUT < t"
  shows "OPEN_DB_TIMEOUT = 5000
    \<and> getSingletonDB run w
        = (Inl (DatabaseTimeoutError MSG_OPEN_TIMEOUT None), w\<lparr>singleton := None\<rparr>)
    \<and> cls (DatabaseTimeoutError MSG_OPEN_TIMEOUT None) = DatabaseTimeoutError_class
    \<and> name (DatabaseTimeoutError MSG_OPEN_TIMEOUT None) = ''DatabaseTimeoutError''
    \<and> (\<forall>err. \<not> instanceof_TimeoutError err \<longrightarrow>
          cls (open_catch err) = DatabaseError_class
          \<and> open_catch err \<noteq> DatabaseTimeoutError MSG_OPEN_TIMEOUT None)"
proof -
  have a: "getSingletonDB run w
        = (Inl (DatabaseTimeoutError MSG_OPEN_TIMEOUT None), w\<lparr>singleton := None\<rparr>)"
    using assms getSingletonDB_timer[of w run t] by auto
  have b: "\<forall>err. \<not> instanceof_TimeoutError err \<longrightarrow>
          cls (open_catch err) = DatabaseError_class
          \<and> open_catch err \<noteq> DatabaseTimeoutError MSG_OPEN_TIMEOUT None"
    by (simp add: open_catch_def DatabaseError_def DatabaseTimeoutError_def)
  show ?thesis using a b by (simp add: OPEN_DB_TIMEOUT_def DatabaseTimeoutError_def)
qed

theorem C5_open_timeout_witness:
  "getSingletonDB \<lparr>settles_at = Some 6000, engine = EngineProceeds\<rparr> fresh_world
     = (Inl (DatabaseTimeoutError MSG_OPEN_TIMEOUT None), fresh_world)"
proof -
  have a: "has_indexedDB fresh_world" by (simp add: fresh_world_def)
  have b: "\<forall>db. singleton fresh_world = Some db \<longrightarrow> \<not> isActive fresh_world db"
    by (simp add: fresh_world_def)
  have c: "settles_at \<lparr>settles_at = Some 6000, engine = EngineProceeds\<rparr> = None
      \<or> settles_at \<lparr>settles_at = Some 6000, engine = EngineProceeds\<rparr> = Some 6000
        \<and> OPEN_DB_TIMEOUT < 6000"
    by (simp add: OPEN_DB_TIMEOUT_def)
  have d: "fresh_world\<lparr>singleton := None\<rparr> = fresh_world" by (simp add: fresh_world_def)
  show ?thesis
    using conjunct1[OF conjunct2[OF C5_open_timeout[OF a b c]]] by (simp only: d)
qed

text \<open>
  Claim C6, as amended. When the engine reports the open request blocked, \<open>open\<close> rejects
  with \<open>DatabaseError('IDB Blocked')\<close>, and \<open>getSingletonDB\<close> turns it into the same
  \<open>DatabaseError\<close> as any error the engine reports: same class, same name, same message.
  Only the stack of the blocked error, appended to it, tells the two apart. It differs
  from the timeout error.
\<close>

theorem C6_blocked_is_generic_failure:
  assumes "has_indexedDB w" and "\<forall>db. singleton w = Some db \<longrightarrow> \<not> isActive w db"
    and "settles_at run = Some t" and "t < OPEN_DB_TIMEOUT"
    and "engine run = EngineBlocked"
    and "cls e = DOMException_class"
  shows "fst (idb_open EngineBlocked w) = Inl (DatabaseError ''IDB Blocked'' None)
    \<and> fst (getSingletonDB run w)
        = Inl (DatabaseError MSG_OPEN_FAILED (Some (DatabaseError ''IDB Blocked'' None)))
    \<and> fst (getSingletonDB (run\<lparr>engine := EngineError e\<rparr>) w)
        = Inl (DatabaseError MSG_OPEN_FAILED (Some e))
    \<and> cls (DatabaseError MSG_OPEN_FAILED (Some (DatabaseError ''IDB Blocked'' None)))
        = cls (DatabaseError MSG_OPEN_FAILED (Some e))
    \<and> name (DatabaseError MSG_OPEN_FAILED (Some (DatabaseError ''IDB Blocked'' None)))
        = name (DatabaseError MSG_OPEN_FAILED (Some e))
    \<and> message (DatabaseError MSG_OPEN_FAILED (Some (DatabaseError ''IDB Blocked'' None)))
        = message (DatabaseError MSG_OPEN_FAILED (Some e))
    \<and> cls (DatabaseError MSG_OPEN_FAILED (Some (DatabaseError ''IDB Blocked'' None)))
        \<noteq> cls (DatabaseTimeoutError MSG_OPEN_TIMEOUT None)"
proof -
  have 1: "fst (idb_open EngineBlocked w) = Inl (DatabaseError ''IDB Blocked'' None)"
    using assms(1) by (simp add: idb_open_def)
  have 2: "fst (getSingletonDB run w)
        = Inl (DatabaseError MSG_OPEN_FAILED (Some (DatabaseError ''IDB Blocked'' None)))"
    using assms
    by (simp add: getSingletonDB_open_settles[of w run t] getSingletonDB_resume_def idb_open_def
        open_catch_def instanceof_TimeoutError_def DatabaseError_def)
  have 3: "fst (getSingletonDB (run\<lparr>engine := EngineError e\<rparr>) w)
        = Inl (DatabaseError MSG_OPEN_FAILED (Some e))"
    using assms
    by (simp add: getSingletonDB_open_settles[of w "run\<lparr>engine := EngineError e\<rparr>" t]
        getSingletonDB_resume_def idb_open_def open_catch_def instanceof_TimeoutError_def)
  show ?thesis using 1 2 3 by (simp add: DatabaseError_def DatabaseTimeoutError_def)
qed

theorem C6_blocked_is_generic_failure_witness:
  "fst (getSingletonDB \<lparr>settles_at = Some 10, engine = EngineBlocked\<rparr> fresh_world)
     = Inl (DatabaseError MSG_OPEN_FAILED (Some (DatabaseError ''IDB Blocked'' None)))
   \<and> fst (getSingletonDB
        \<lparr>settles_at = Some 10, engine = EngineError (DOMException ''UnknownError'' [])\<rparr>
        fresh_world)
     = Inl (DatabaseError MSG_OPEN_FAILED (Some (DOMException ''UnknownError'' [])))"
  using C6_blocked_is_generic_failure[of fresh_world
      "\<lparr>settles_at = Some 10, engine = EngineBlocked\<rparr>" 10 "DOMException ''UnknownError'' []"]
  by (simp add: OPEN_DB_TIMEOUT_def DOMException_def fresh_world_def)

text \<open>
  The claim as stated fails: for a blocked open and for an open the engine fails with
  \<open>UnknownError\<close>, \<open>getSingletonDB\<close> rejects with errors of one class, name and message.
\<close>

theorem C6_blocked_counterexample:
  "(case (fst (getSingletonDB \<lparr>settles_at = Some 10, engine = EngineBlocked\<rparr> fresh_world),
          fst (getSingletonDB
                 \<lparr>settles_at = Some 10, engine = EngineError (DOMException ''UnknownError'' [])\<rparr>
                 fresh_world)) of
      (Inl blocked, Inl failure) \<Rightarrow>
         cls blocked = cls failure \<and> name blocked = name failure
         \<and> message blocked = message failure
    | _ \<Rightarrow> False)"
  by (simp add: getSingletonDB_def getSingletonDB_enter_def getSingletonDB_resume_def race_of_def
      idb_open_def open_catch_def instanceof_TimeoutError_def OPEN_DB_TIMEOUT_def
      DatabaseError_def DOMException_def fresh_world_def)

text \<open>
  Claim C7. When a request or a transaction of the current session fails with an error
  named \<open>InvalidStateError\<close>, \<open>request2promise\<close> and \<open>transaction2promise\<close> close the handle
  the transaction belongs to and reject with that very error. The handle is then
  \<open>CLOSED\<close>, so the next \<open>getSingletonDB\<close> does not return it: it goes on to \<open>open\<close>, and
  when the engine opens the database the call resolves with a new handle, open and
  current.
\<close>

theorem C7_invalid_state_closes:
  assumes "name err = ''InvalidStateError''"
    and "singleton w = Some (tx_db tx)" and "tx_db tx < length (handles w)"
    and "has_indexedDB w" and "version w = DATABASE_VERSION"
    and "settles_at run = Some t" and "t < OPEN_DB_TIMEOUT" and "engine run = EngineProceeds"
  shows "request2promise (Some tx) (ReqError err :: ImageMap list req_event) w
        = (Inl err, close (tx_db tx) w)
    \<and> transaction2promise tx (ErrorEvent err) w = (Inl err, close (tx_db tx) w)
    \<and> handles (close (tx_db tx) w) ! tx_db tx = CLOSED
    \<and> \<not> isActive (close (tx_db tx) w) (tx_db tx)
    \<and> fst (getSingletonDB_enter (close (tx_db tx) w)) = Awaiting
    \<and> fst (getSingletonDB run (close (tx_db tx) w)) = Inr (length (handles w))
    \<and> length (handles w) \<noteq> tx_db tx
    \<and> isActive (snd (getSingletonDB run (close (tx_db tx) w))) (length (handles w))
    \<and> singleton (snd (getSingletonDB run (close (tx_db tx) w))) = Some (length (handles w))"
proof -
  let ?w = "close (tx_db tx) w"
  have 1: "request2promise (Some tx) (ReqError err :: ImageMap list req_event) w = (Inl err, ?w)"
    using assms(1) by (simp add: request2promise_def)
  have 2: "transaction2promise tx (ErrorEvent err) w = (Inl err, ?w)"
    using assms(1) by (simp add: transaction2promise_def)
  have 3: "\<not> isActive ?w (tx_db tx)" by (rule close_not_active)
  have 4: "singleton ?w = Some (tx_db tx)" using assms(2) by (simp add: close_def)
  have 5: "fst (getSingletonDB_enter ?w) = Awaiting"
    using 3 4 by (simp add: getSingletonDB_enter_def)
  have 6: "getSingletonDB run ?w
      = getSingletonDB_resume (OpenSettles (engine run)) (?w\<lparr>singleton := None\<rparr>)"
    using assms 3 4 by (intro getSingletonDB_open_settles[of ?w run t]) (auto simp: close_def)
  have 7: "getSingletonDB_resume (OpenSettles EngineProceeds) (?w\<lparr>singleton := None\<rparr>)
      = (Inr (length (handles w)),
         ?w\<lparr>singleton := Some (length (handles w)), handles := handles ?w @ [OPEN]\<rparr>)"
    using assms(4,5)
    by (simp add: getSingletonDB_resume_def idb_open_def onsuccess_def close_def)
  show ?thesis
    using 1 2 3 5 6 7 assms(3,8) by (simp add: close_state isActive_def nth_append close_def)
qed

theorem C7_invalid_state_closes_witness:
  "request2promise (Some ex_tx) (ReqError InvalidStateError :: ImageMap list req_event) ex_world
     = (Inl InvalidStateError, ex_world\<lparr>handles := [CLOSED]\<rparr>)
   \<and> transaction2promise ex_tx (ErrorEvent InvalidStateError) ex_world
     = (Inl InvalidStateError, ex_world\<lparr>handles := [CLOSED]\<rparr>)
   \<and> getSingletonDB quick (ex_world\<lparr>handles := [CLOSED]\<rparr>)
     = (Inr 1, ex_world\<lparr>handles := [CLOSED, OPEN], singleton := Some 1\<rparr>)"
proof -
  have w: "close (tx_db ex_tx) ex_world = ex_world\<lparr>handles := [CLOSED]\<rparr>"
    by (simp add: close_def ex_tx_def ex_world_def)
  have g: "getSingletonDB quick (ex_world\<lparr>handles := [CLOSED]\<rparr>)
     = (Inr 1, ex_world\<lparr>handles := [CLOSED, OPEN], singleton := Some 1\<rparr>)"
    by (simp add: getSingletonDB_def getSingletonDB_enter_def getSingletonDB_resume_def
        race_of_def idb_open_def onsuccess_def isActive_def quick_def ex_world_def
        OPEN_DB_TIMEOUT_def DATABASE_VERSION_def)
  show ?thesis
    using C7_invalid_state_closes[of InvalidStateError ex_world ex_tx quick 10] w g
    by (simp add: InvalidStateError_def DOMException_def ex_world_def ex_tx_def quick_def
        OPEN_DB_TIMEOUT_def DATABASE_VERSION_def)
qed

section \<open>The query: incomplete keys and the key zero\<close>

lemma contains_map_of:
  "contains (objectStoreNames ss) n \<Longrightarrow> \<exists>st. map_of ss n = Some st"
  by (induction ss) (auto simp: contains_def objectStoreNames_def)

lemma not_contains_map_of:
  "\<not> contains (objectStoreNames ss) n \<Longrightarrow> map_of ss n = None"
  by (induction ss) (auto simp: contains_def objectStoreNames_def)

lemma db_transaction_objectStore:
  assumes "db_transaction db [n] mode w = Inr tx"
  shows "\<exists>st. objectStore tx n = Inr st \<and> map_of (stores w) n = Some st"
    and "tx_log tx = []" and "tx_error tx = None" and "tx_view tx = stores w"
    and "tx_names tx = [n]"
  using assms contains_map_of[of "stores w" n]
  by (auto simp: db_transaction_def objectStore_def contains_def split: if_splits)

lemma beginTransaction_db_transaction:
  assumes "beginTransaction run names mode w = (Inr tx, w1)"
  shows "db_transaction (tx_db tx) names mode w1 = Inr tx"
  using assms
  by (auto simp: beginTransaction_def db_transaction_def split: prod.splits sum.splits if_splits)

lemma getImageMaps_in_nil:
  assumes "isNil (q_row query) \<or> isNil (q_col query)" and "objectStore tx IMAGE_MAP = Inr st"
  shows "getImageMaps_in tx query w = (Inl DatabaseIndexError, tx, w)"
  using assms by (auto simp: getImageMaps_in_def)





lemma getImageMaps_in_num:
  assumes "objectStore tx IMAGE_MAP = Inr st" and "contains (indexNames st) IDX_ROW_COL"
    and "tx_error tx = None"
  shows "getImageMaps_in tx \<lparr>q_row = Num r, q_col = Num c\<rparr> w
     = (Inr (index_getAll st r c), tx\<lparr>tx_log := tx_log tx @ [GetAll IDX_ROW_COL r c]\<rparr>, w)"
  using assms
  by (simp add: getImageMaps_in_def store_index_def getAll_request_def request2promise_def
      isNil_def isNull_def isUndefined_def Let_def)

text \<open>
  Claim C8, as amended. For a query whose row or column is absent, \<open>getImageMaps\<close> fails
  with \<open>DatabaseIndexError\<close> and places no request, once it has its transaction and the
  store: with the transaction of the options, or with one it began itself, whose log is
  then empty. When it cannot begin a transaction, it fails with the error of that,
  whatever the query.
\<close>

theorem C8_missing_index_after_transaction:
  assumes "isNil (q_row query) \<or> isNil (q_col query)"
  shows "(transaction options = Some tx \<and> objectStore tx IMAGE_MAP = Inr st \<longrightarrow>
            getImageMaps run query options w = (Inl DatabaseIndexError, Some tx, w))
    \<and> (transaction options = None
        \<and> beginTransaction run [IMAGE_MAP] Readonly w = (Inr tx, w1) \<longrightarrow>
            getImageMaps run query options w = (Inl DatabaseIndexError, Some tx, w1)
            \<and> tx_log tx = [])
    \<and> (transaction options = None
        \<and> beginTransaction run [IMAGE_MAP] Readonly w = (Inl e, w1) \<longrightarrow>
            getImageMaps run query options w = (Inl e, None, w1))"
proof (intro conjI impI)
  assume "transaction options = Some tx \<and> objectStore tx IMAGE_MAP = Inr st"
  then show "getImageMaps run query options w = (Inl DatabaseIndexError, Some tx, w)"
    using assms by (simp add: getImageMaps_def getImageMaps_in_nil)
next
  assume a: "transaction options = None
    \<and> beginTransaction run [IMAGE_MAP] Readonly w = (Inr tx, w1)"
  then have "db_transaction (tx_db tx) [IMAGE_MAP] Readonly w1 = Inr tx"
    using beginTransaction_db_transaction by blast
  then obtain st' where "objectStore tx IMAGE_MAP = Inr st'" and l: "tx_log tx = []"
    using db_transaction_objectStore(1,2)[of "tx_db tx" IMAGE_MAP Readonly w1 tx] by auto
  then show "getImageMaps run query options w = (Inl DatabaseIndexError, Some tx, w1)"
    using a assms by (simp add: getImageMaps_def getImageMaps_in_nil)
  show "tx_log tx = []" by (rule l)
next
  assume "transaction options = None
    \<and> beginTransaction run [IMAGE_MAP] Readonly w = (Inl e, w1)"
  then show "getImageMaps run query options w = (Inl e, None, w1)"
    by (simp add: getImageMaps_def)
qed

theorem C8_missing_index_after_transaction_witness:
  "getImageMaps quick \<lparr>q_row = Num 5, q_col = Undefined\<rparr> \<lparr>transaction = Some ex_tx\<rparr> ex_world
     = (Inl DatabaseIndexError, Some ex_tx, ex_world)"
  using C8_missing_index_after_transaction[of "\<lparr>q_row = Num 5, q_col = Undefined\<rparr>"
      "\<lparr>transaction = Some ex_tx\<rparr>" ex_tx ex_store quick ex_world]
  by (simp add: isNil_def isUndefined_def isNull_def objectStore_def contains_def ex_tx_def)

text \<open>
  The claim as stated fails: with the column omitted and no transaction in the options,
  on a page whose engine never answers the open request, \<open>getImageMaps\<close> fails with the
  timeout error of the connection, not with \<open>DatabaseIndexError\<close>.
\<close>

theorem C8_missing_index_counterexample:
  "fst (getImageMaps stalled \<lparr>q_row = Num 5, q_col = Undefined\<rparr> \<lparr>transaction = None\<rparr>
          fresh_world)
     = Inl (DatabaseTimeoutError MSG_OPEN_TIMEOUT None)
   \<and> DatabaseTimeoutError MSG_OPEN_TIMEOUT None \<noteq> DatabaseIndexError"
  by (simp add: getImageMaps_def beginTransaction_def getSingletonDB_def getSingletonDB_enter_def
      getSingletonDB_resume_def race_of_def open_catch_def instanceof_TimeoutError_def
      TimeoutError_def DatabaseTimeoutError_def DatabaseIndexError_def fresh_world_def
      stalled_def)





section \<open>The upgrade handler: bootstrap twice\<close>

lemma contains_update: "contains (objectStoreNames (AList.update n st ss)) n"
  by (simp add: contains_def objectStoreNames_def update_keys)

lemma update_appended:
  "map_of ss k = None \<Longrightarrow> AList.update k v (ss @ [(k, v0)]) = ss @ [(k, v)]"
  by (induction ss) (auto split: if_splits)

lemma upgrade_cases:
  obtains
    (present) st where "map_of ss IMAGE_MAP = Some st"
      "contains (objectStoreNames ss) IMAGE_MAP"
      "contains (indexNames st) IDX_ROW_COL" "onupgradeneeded ss = ([], Inr ss)"
  | (index_added) st where "map_of ss IMAGE_MAP = Some st"
      "contains (objectStoreNames ss) IMAGE_MAP"
      "\<not> contains (indexNames st) IDX_ROW_COL"
      "distinct (map (\<lambda>x. (srow x, scol x)) (rows st))"
      "onupgradeneeded ss = ([CreateIndex IMAGE_MAP IDX_ROW_COL],
          Inr (AList.update IMAGE_MAP (st\<lparr>indexNames := indexNames st @ [IDX_ROW_COL]\<rparr>) ss))"
  | (index_refused) st where "map_of ss IMAGE_MAP = Some st"
      "contains (objectStoreNames ss) IMAGE_MAP"
      "\<not> contains (indexNames st) IDX_ROW_COL"
      "\<not> distinct (map (\<lambda>x. (srow x, scol x)) (rows st))"
      "onupgradeneeded ss = ([CreateIndex IMAGE_MAP IDX_ROW_COL], Inl ConstraintError)"
  | (created) "map_of ss IMAGE_MAP = None" "\<not> contains (objectStoreNames ss) IMAGE_MAP"
      "onupgradeneeded ss = ([CreateObjectStore IMAGE_MAP, CreateIndex IMAGE_MAP IDX_ROW_COL],
          Inr (ss @ [(IMAGE_MAP, \<lparr>rows = [], keygen = 1, indexNames = [IDX_ROW_COL]\<rparr>)]))"
proof (cases "contains (objectStoreNames ss) IMAGE_MAP")
  case True
  then obtain st where st: "map_of ss IMAGE_MAP = Some st" using contains_map_of by blast
  show ?thesis
  proof (cases "contains (indexNames st) IDX_ROW_COL")
    case c: True
    have "onupgradeneeded ss = ([], Inr ss)"
      using True st c by (simp add: onupgradeneeded_def)
    then show ?thesis using present st True c by blast
  next
    case c: False
    show ?thesis
    proof (cases "distinct (map (\<lambda>x. (srow x, scol x)) (rows st))")
      case d: True
      have "onupgradeneeded ss = ([CreateIndex IMAGE_MAP IDX_ROW_COL],
          Inr (AList.update IMAGE_MAP (st\<lparr>indexNames := indexNames st @ [IDX_ROW_COL]\<rparr>) ss))"
        using True st c d by (simp add: onupgradeneeded_def createIndex_def)
      then show ?thesis using index_added st True c d by blast
    next
      case d: False
      have "onupgradeneeded ss = ([CreateIndex IMAGE_MAP IDX_ROW_COL], Inl ConstraintError)"
        using True st c d by (simp add: onupgradeneeded_def createIndex_def)
      then show ?thesis using index_refused st True c d by blast
    qed
  qed
next
  case False
  then have n: "map_of ss IMAGE_MAP = None" by (rule not_contains_map_of)
  have "onupgradeneeded ss = ([CreateObjectStore IMAGE_MAP, CreateIndex IMAGE_MAP IDX_ROW_COL],
          Inr (ss @ [(IMAGE_MAP, \<lparr>rows = [], keygen = 1, indexNames = [IDX_ROW_COL]\<rparr>)]))"
    using False n
    by (simp add: onupgradeneeded_def createObjectStore_def createIndex_def contains_def
        update_appended map_add_def)
  then show ?thesis using created n False by blast
qed

lemma upgrade_calls:
  "(CreateObjectStore n \<in> set (fst (onupgradeneeded ss)) \<longrightarrow> \<not> contains (objectStoreNames ss) n)
   \<and> (CreateIndex sn i \<in> set (fst (onupgradeneeded ss)) \<and> map_of ss sn = Some st
        \<longrightarrow> \<not> contains (indexNames st) i)"
  by (cases ss rule: upgrade_cases) auto

lemma upgrade_no_exists_error: "snd (onupgradeneeded ss) \<noteq> Inl ConstraintError_exists"
  by (cases ss rule: upgrade_cases)
     (auto simp: ConstraintError_def ConstraintError_exists_def DOMException_def)

lemma upgrade_keeps_rows:
  assumes "snd (onupgradeneeded ss) = Inr ss'" and "map_of ss n = Some st"
  shows "\<exists>st'. map_of ss' n = Some st' \<and> rows st' = rows st \<and> keygen st' = keygen st"
  using assms by (cases ss rule: upgrade_cases) (auto simp: update_conv' map_add_def)

lemma upgrade_twice:
  assumes "snd (onupgradeneeded ss) = Inr ss'"
  shows "onupgradeneeded ss' = ([], Inr ss')"
proof (cases ss rule: upgrade_cases)
  case (present st)
  then show ?thesis using assms by simp
next
  case (index_added st)
  then have ss': "ss' = AList.update IMAGE_MAP (st\<lparr>indexNames := indexNames st @ [IDX_ROW_COL]\<rparr>) ss"
    using assms by simp
  show ?thesis
    by (simp add: ss' onupgradeneeded_def contains_update update_conv') (simp add: contains_def)
next
  case (index_refused st)
  then show ?thesis using assms by simp
next
  case created
  then have ss': "ss' = ss @ [(IMAGE_MAP, \<lparr>rows = [], keygen = 1, indexNames = [IDX_ROW_COL]\<rparr>)]"
    using assms by simp
  show ?thesis
    using created(1) by (simp add: ss' onupgradeneeded_def map_add_def)
       (simp add: contains_def objectStoreNames_def)
qed

lemma idb_open_failed: "fst (idb_open ev w) = Inl e \<Longrightarrow> snd (idb_open ev w) = w"
  by (auto simp: idb_open_def onsuccess_def split: open_event.splits if_splits sum.splits)

lemma idb_open_succeeded:
  assumes "idb_open EngineProceeds w = (Inr db, w1)"
  shows "db = length (handles w)" and "handles w1 = handles w @ [OPEN]"
    and "version w1 = DATABASE_VERSION" and "has_indexedDB w1" and "singleton w1 = singleton w"
    and "version w = DATABASE_VERSION \<and> stores w1 = stores w
         \<or> version w < DATABASE_VERSION \<and> snd (onupgradeneeded (stores w)) = Inr (stores w1)"
  using assms
  by (auto simp: idb_open_def onsuccess_def split: if_splits sum.splits)

lemma idb_open_again:
  assumes "idb_open EngineProceeds w = (Inr db, w1)"
  shows "idb_open EngineProceeds w1 = (Inr (Suc db), w1\<lparr>handles := handles w1 @ [OPEN]\<rparr>)"
  using idb_open_succeeded[OF assms] by (simp add: idb_open_def onsuccess_def)

lemma idb_open_keeps_rows:
  assumes "idb_open EngineProceeds w = (Inr db, w1)" and "map_of (stores w) sn = Some st"
  shows "\<exists>st'. map_of (stores w1) sn = Some st' \<and> rows st' = rows st \<and> keygen st' = keygen st"
  using idb_open_succeeded(6)[OF assms(1)] assms(2)
    upgrade_keeps_rows[of "stores w" "stores w1" sn st]
  by auto

text \<open>
  Claim C9. On every database state the upgrade handler calls \<open>createObjectStore\<close> only
  for a store that is not there and \<open>createIndex\<close> only for an index its store has not,
  so it never raises the error of an existing name; when it succeeds, every store that
  was there keeps its records and its key generator; run again on its own result, it
  makes no call and changes nothing. For \<open>open\<close>: an open that fails leaves the database
  as it was, an open that succeeds keeps the records of every store, and a second open
  right after it succeeds with the stores unchanged.
\<close>

theorem C9_bootstrap_idempotent:
  "(CreateObjectStore n \<in> set (fst (onupgradeneeded ss)) \<longrightarrow> \<not> contains (objectStoreNames ss) n)
   \<and> (CreateIndex sn i \<in> set (fst (onupgradeneeded ss)) \<and> map_of ss sn = Some st
        \<longrightarrow> \<not> contains (indexNames st) i)
   \<and> snd (onupgradeneeded ss) \<noteq> Inl ConstraintError_exists
   \<and> (snd (onupgradeneeded ss) = Inr ss' \<and> map_of ss sn = Some st \<longrightarrow>
        (\<exists>st'. map_of ss' sn = Some st' \<and> rows st' = rows st \<and> keygen st' = keygen st))
   \<and> (snd (onupgradeneeded ss) = Inr ss' \<longrightarrow> onupgradeneeded ss' = ([], Inr ss'))
   \<and> (fst (idb_open ev w) = Inl e \<longrightarrow> snd (idb_open ev w) = w)
   \<and> (idb_open EngineProceeds w = (Inr db, w1) \<and> map_of (stores w) sn = Some st \<longrightarrow>
        (\<exists>st'. map_of (stores w1) sn = Some st' \<and> rows st' = rows st \<and> keygen st' = keygen st))
   \<and> (idb_open EngineProceeds w = (Inr db, w1) \<longrightarrow>
        idb_open EngineProceeds w1 = (Inr (Suc db), w1\<lparr>handles := handles w1 @ [OPEN]\<rparr>))"
  using upgrade_calls[of n ss sn i st] upgrade_no_exists_error[of ss]
    upgrade_keeps_rows[of ss ss' sn st] upgrade_twice[of ss ss']
    idb_open_failed[of ev w e] idb_open_keeps_rows[of w db w1 sn st] idb_open_again[of w db w1]
  by blast

theorem C9_bootstrap_idempotent_witness:
  "onupgradeneeded [(IMAGE_MAP, ex_store\<lparr>indexNames := []\<rparr>)]
     = ([CreateIndex IMAGE_MAP IDX_ROW_COL], Inr [(IMAGE_MAP, ex_store)])
   \<and> onupgradeneeded [(IMAGE_MAP, ex_store)] = ([], Inr [(IMAGE_MAP, ex_store)])"
proof -
  have 1: "onupgradeneeded [(IMAGE_MAP, ex_store\<lparr>indexNames := []\<rparr>)]
     = ([CreateIndex IMAGE_MAP IDX_ROW_COL], Inr [(IMAGE_MAP, ex_store)])"
    by (simp add: onupgradeneeded_def createIndex_def contains_def objectStoreNames_def
        ex_store_def)
  then have "snd (onupgradeneeded [(IMAGE_MAP, ex_store\<lparr>indexNames := []\<rparr>)])
     = Inr [(IMAGE_MAP, ex_store)]" by simp
  then have "onupgradeneeded [(IMAGE_MAP, ex_store)] = ([], Inr [(IMAGE_MAP, ex_store)])"
    using C9_bootstrap_idempotent[where ss = "[(IMAGE_MAP, ex_store\<lparr>indexNames := []\<rparr>)]"
        and ss' = "[(IMAGE_MAP, ex_store)]"]
    by blast
  then show ?thesis using 1 by simp
qed

section \<open>Overlapping calls: one session\<close>

lemma idb_open_handles:
  assumes "idb_open ev w = (Inr db, w1)"
  shows "db = length (handles w)" and "handles w1 = handles w @ [OPEN]"
    and "singleton w1 = singleton w"
  using assms
  by (auto simp: idb_open_def onsuccess_def split: open_event.splits if_splits sum.splits)

lemma isActive_append:
  "handles w1 = handles w @ [x] \<Longrightarrow> db < length (handles w) \<Longrightarrow> isActive w1 db = isActive w db"
  by (simp add: isActive_def nth_append)

lemma isActive_bound: "isActive w db \<Longrightarrow> db < length (handles w)"
  by (simp add: isActive_def)

lemma isActive_close:
  "isActive (close db' w) db = (isActive w db \<and> db \<noteq> db')"
  by (cases "db = db'") (auto simp: isActive_def close_def)

lemma singleton_close: "singleton (close db w) = singleton w"
  by (simp add: close_def)

text \<open>What the second part of a call does, case by case.\<close>

lemma resume_cases:
  assumes "singleton_exists w"
  obtains
    (failed) e where "getSingletonDB_resume r w = (Inl e, w)"
  | (duplicate) ev db db' w1 where "r = OpenSettles ev" "idb_open ev w = (Inr db', w1)"
      "singleton w = Some db" "isActive w db"
      "getSingletonDB_resume r w = (Inr db, close db' w1)"
  | (adopted) ev db' w1 where "r = OpenSettles ev" "idb_open ev w = (Inr db', w1)"
      "\<forall>db. singleton w = Some db \<longrightarrow> \<not> isActive w db"
      "getSingletonDB_resume r w = (Inr db', w1\<lparr>singleton := Some db'\<rparr>)"
proof (cases r)
  case TimerWins
  then show ?thesis using failed by (simp add: getSingletonDB_resume_def)
next
  case (OpenSettles ev)
  show ?thesis
  proof (cases "idb_open ev w")
    case (Pair res w1)
    show ?thesis
    proof (cases res)
      case (Inl e)
      then have "w1 = w" using Pair idb_open_failed[of ev w e] by simp
      then show ?thesis using failed OpenSettles Pair Inl by (simp add: getSingletonDB_resume_def)
    next
      case (Inr db')
      note o = idb_open_handles[OF Pair[unfolded Inr]]
      show ?thesis
      proof (cases "\<exists>db. singleton w = Some db \<and> isActive w db")
        case True
        then obtain db where db: "singleton w = Some db" "isActive w db" by blast
        then have "isActive w1 db"
          using isActive_append[OF o(2)] isActive_bound by blast
        then have "getSingletonDB_resume r w = (Inr db, close db' w1)"
          using OpenSettles Pair Inr db o(3) by (simp add: getSingletonDB_resume_def)
        then show ?thesis using duplicate OpenSettles Pair Inr db by blast
      next
        case False
        then have n: "\<forall>db. singleton w = Some db \<longrightarrow> \<not> isActive w db" by blast
        have "\<forall>db. singleton w1 = Some db \<longrightarrow> \<not> isActive w1 db"
        proof (intro allI impI)
          fix db assume s: "singleton w1 = Some db"
          then have na: "\<not> isActive w db" using n o(3) by simp
          have "db < length (handles w)"
            using s o(3) assms by (simp add: singleton_exists_def)
          then show "\<not> isActive w1 db" using na isActive_append[OF o(2)] by blast
        qed
        then have "getSingletonDB_resume r w = (Inr db', w1\<lparr>singleton := Some db'\<rparr>)"
          using OpenSettles Pair Inr
          by (auto simp: getSingletonDB_resume_def split: option.splits)
        then show ?thesis using adopted OpenSettles Pair Inr n by blast
      qed
    qed
  qed
qed


lemma enter_cases:
  obtains
    (returned) db where "singleton w = Some db" "isActive w db"
      "getSingletonDB_enter w = (Returned db, w)"
  | (awaiting) "\<forall>db. singleton w = Some db \<longrightarrow> \<not> isActive w db"
      "getSingletonDB_enter w = (Awaiting, w\<lparr>singleton := None\<rparr>)"
  by (cases "singleton w") (auto simp: getSingletonDB_enter_def)

lemma inv_enter:
  assumes "singleton_exists w" and "only_current_open w"
    and "getSingletonDB_enter w = (e, w')"
  shows "singleton_exists w'" and "only_current_open w'"
    and "\<forall>db. e = Returned db \<longrightarrow> isActive w' db \<and> singleton w' = Some db"
    and "\<forall>d. singleton w = Some d \<and> isActive w d \<longrightarrow> e = Returned d \<and> w' = w"
proof -
  have "singleton_exists w' \<and> only_current_open w'
    \<and> (\<forall>db. e = Returned db \<longrightarrow> isActive w' db \<and> singleton w' = Some db)
    \<and> (\<forall>d. singleton w = Some d \<and> isActive w d \<longrightarrow> e = Returned d \<and> w' = w)"
  proof (rule enter_cases[of w])
    fix db
    assume 1: "singleton w = Some db" "isActive w db"
      and 2: "getSingletonDB_enter w = (Returned db, w)"
    have "e = Returned db" "w' = w" using assms(3) 2 by simp_all
    then show ?thesis using assms(1,2) 1 by simp
  next
    assume a: "\<forall>db. singleton w = Some db \<longrightarrow> \<not> isActive w db"
      and b: "getSingletonDB_enter w = (Awaiting, w\<lparr>singleton := None\<rparr>)"
    have e: "e = Awaiting" and w': "w' = w\<lparr>singleton := None\<rparr>" using assms(3) b by simp_all
    have n: "\<And>x. \<not> isActive w x" using a assms(2) unfolding only_current_open_def by blast
    have n': "\<And>x. \<not> isActive w' x" using n by (simp add: w' isActive_def)
    have 1: "singleton_exists w'" by (simp add: w' singleton_exists_def)
    have 2: "only_current_open w'" using n' by (simp add: only_current_open_def)
    show ?thesis using 1 2 e n by simp
  qed
  then show "singleton_exists w'" and "only_current_open w'"
    and "\<forall>db. e = Returned db \<longrightarrow> isActive w' db \<and> singleton w' = Some db"
    and "\<forall>d. singleton w = Some d \<and> isActive w d \<longrightarrow> e = Returned d \<and> w' = w"
    by blast+
qed

lemma inv_resume:
  assumes "singleton_exists w" and "only_current_open w"
    and "getSingletonDB_resume r w = (res, w')"
  shows "singleton_exists w'" and "only_current_open w'"
    and "\<forall>db. res = Inr db \<longrightarrow> isActive w' db \<and> singleton w' = Some db"
    and "\<forall>d. singleton w = Some d \<and> isActive w d \<longrightarrow> singleton w' = Some d \<and> isActive w' d"
proof -
  have "singleton_exists w' \<and> only_current_open w'
    \<and> (\<forall>db. res = Inr db \<longrightarrow> isActive w' db \<and> singleton w' = Some db)
    \<and> (\<forall>d. singleton w = Some d \<and> isActive w d \<longrightarrow> singleton w' = Some d \<and> isActive w' d)"
    using assms(1)
  proof (cases rule: resume_cases[where r = r])
    case (failed e)
    have "res = Inl e" and "w' = w" using failed assms(3) by simp_all
    then show ?thesis using assms(1,2) by simp
  next
    case (duplicate ev db db' w1)
    note o = idb_open_handles[OF duplicate(2)]
    have w': "w' = close db' w1" and res: "res = Inr db" using duplicate(5) assms(3) by simp_all
    have len: "db < length (handles w)" using duplicate(4) by (rule isActive_bound)
    have a: "isActive w' x = isActive w x" for x
    proof (cases "x < length (handles w)")
      case True
      then have "x \<noteq> db'" using o(1) by simp
      then show ?thesis using True isActive_append[OF o(2), of x] by (simp add: w' isActive_close)
    next
      case False
      then have 1: "\<not> isActive w x" by (simp add: isActive_def)
      have "isActive w1 x \<Longrightarrow> x = db'" using False o(1,2) by (auto simp: isActive_def)
      then have "\<not> isActive w' x" unfolding w' isActive_close by blast
      then show ?thesis using 1 by simp
    qed
    have s: "singleton w' = Some db"
      using o(3) duplicate(3) unfolding w' singleton_close by simp
    have "length (handles w') = Suc (length (handles w))" using o(2) by (simp add: w' close_def)
    then have 1: "singleton_exists w'"
      using s len by (simp add: singleton_exists_def)
    have 2: "only_current_open w'"
      unfolding only_current_open_def
    proof (intro allI impI)
      fix x assume "isActive w' x"
      then have "isActive w x" using a by simp
      then have "singleton w = Some x" using assms(2) unfolding only_current_open_def by blast
      then show "singleton w' = Some x" using s duplicate(3) by simp
    qed
    have 3: "\<forall>d. res = Inr d \<longrightarrow> isActive w' d \<and> singleton w' = Some d"
      using res s a[of db] duplicate(4) by simp
    have 4: "\<forall>d. singleton w = Some d \<and> isActive w d \<longrightarrow> singleton w' = Some d \<and> isActive w' d"
      using s a duplicate(3) by simp
    show ?thesis using 1 2 3 4 by blast
  next
    case (adopted ev db' w1)
    note o = idb_open_handles[OF adopted(2)]
    have w': "w' = w1\<lparr>singleton := Some db'\<rparr>" and res: "res = Inr db'"
      using adopted(4) assms(3) by simp_all
    have none: "\<not> isActive w x" for x
      using adopted(3) assms(2) unfolding only_current_open_def by blast
    have h: "handles w' = handles w @ [OPEN]" using o(2) by (simp add: w')
    have a: "isActive w' x = (x = db')" for x
    proof (cases "x < length (handles w)")
      case True
      then show ?thesis using none[of x] o(1) h by (simp add: isActive_def nth_append)
    next
      case False
      then show ?thesis using o(1) h by (auto simp: isActive_def nth_append)
    qed
    have s: "singleton w' = Some db'" by (simp add: w')
    have 1: "singleton_exists w'" using o(1) h s by (simp add: singleton_exists_def)
    have 2: "only_current_open w'" unfolding only_current_open_def using a s by simp
    have 3: "\<forall>d. res = Inr d \<longrightarrow> isActive w' d \<and> singleton w' = Some d"
      using res s a by simp
    have 4: "\<forall>d. singleton w = Some d \<and> isActive w d \<longrightarrow> singleton w' = Some d \<and> isActive w' d"
      using none by simp
    show ?thesis using 1 2 3 4 by blast
  qed
  then show "singleton_exists w'" and "only_current_open w'"
    and "\<forall>db. res = Inr db \<longrightarrow> isActive w' db \<and> singleton w' = Some db"
    and "\<forall>d. singleton w = Some d \<and> isActive w d \<longrightarrow> singleton w' = Some d \<and> isActive w' d"
    by blast+
qed

lemma inv_close:
  assumes "singleton_exists w" and "only_current_open w"
  shows "singleton_exists (close db w)" and "only_current_open (close db w)"
  using assms
  by (auto simp: singleton_exists_def only_current_open_def isActive_close singleton_close
      split: option.splits) (simp_all add: close_def)

lemma step_conn_inv:
  assumes "conn_inv s" and "\<not> is_Late ev"
  shows "conn_inv (step ev s)"
proof (cases ev)
  case Call
  obtain e w' where e: "getSingletonDB_enter (sys_world s) = (e, w')" by (cases "getSingletonDB_enter (sys_world s)")
  then show ?thesis
    using assms(1) inv_enter(1,2)[OF _ _ e] Call
    by (cases e) (simp_all add: conn_inv_def step_def)
next
  case (Settle i oe)
  obtain res w' where r: "getSingletonDB_resume (OpenSettles oe) (sys_world s) = (res, w')"
    by (cases "getSingletonDB_resume (OpenSettles oe) (sys_world s)")
  then show ?thesis
    using assms(1) inv_resume(1,2)[OF _ _ r] Settle
    by (simp add: conn_inv_def step_def)
next
  case (Timer i)
  obtain res w' where r: "getSingletonDB_resume TimerWins (sys_world s) = (res, w')"
    by (cases "getSingletonDB_resume TimerWins (sys_world s)")
  then show ?thesis
    using assms(1) inv_resume(1,2)[OF _ _ r] Timer
    by (simp add: conn_inv_def step_def)
next
  case (Late i oe)
  then show ?thesis using assms(2) by simp
next
  case (HandleClosed db)
  then show ?thesis using assms(1) inv_close by (simp add: conn_inv_def step_def)
qed

lemma ball_update:
  "\<forall>c\<in>set cs. P c \<Longrightarrow> P v \<Longrightarrow> \<forall>c\<in>set (cs[i := v]). P c"
  using set_update_subset_insert[of cs i v] by auto

lemma step_resolved_inv:
  assumes "conn_inv s" and "resolved_inv s" and "\<not> is_Late ev" and "\<not> is_HandleClosed ev"
  shows "resolved_inv (step ev s)"
proof (cases ev)
  case Call
  obtain e w' where e: "getSingletonDB_enter (sys_world s) = (e, w')" by (cases "getSingletonDB_enter (sys_world s)")
  note i = inv_enter(3,4)[OF _ _ e]
  show ?thesis
  proof (cases e)
    case (Returned db)
    then show ?thesis
      using assms(1,2) i e Call
      by (cases "sys_world s" rule: enter_cases) (auto simp: conn_inv_def resolved_inv_def step_def)
  next
    case Awaiting
    then show ?thesis
      using assms(1,2) i e Call by (auto simp: conn_inv_def resolved_inv_def step_def)
  qed
next
  case (Settle i oe)
  obtain res w' where r: "getSingletonDB_resume (OpenSettles oe) (sys_world s) = (res, w')"
    by (cases "getSingletonDB_resume (OpenSettles oe) (sys_world s)")
  note v = inv_resume(3,4)[OF _ _ r]
  show ?thesis
  proof (cases "i < length (calls s) \<and> calls s ! i = Pending")
    case True
    have old: "\<forall>c\<in>set (calls s). \<forall>db. c = Finished (Inr db) \<longrightarrow>
        isActive w' db \<and> singleton w' = Some db"
      using assms(1,2) v(2) by (simp add: resolved_inv_def conn_inv_def)
    have new: "\<forall>db. Finished res = Finished (Inr db) \<longrightarrow>
        isActive w' db \<and> singleton w' = Some db"
      using assms(1) v(1) by (simp add: conn_inv_def)
    have "\<forall>c\<in>set ((calls s)[i := if oe = EngineBlocked \<and> has_indexedDB (sys_world s)
                                         then Orphaned res else Finished res]).
        \<forall>db. c = Finished (Inr db) \<longrightarrow> isActive w' db \<and> singleton w' = Some db"
      by (rule ball_update[OF old]) (use new in auto)
    then show ?thesis using True r Settle by (simp add: resolved_inv_def step_def del: split_paired_All)
  next
    case False
    then show ?thesis using assms(2) Settle by (auto simp: step_def)
  qed
next
  case (Timer i)
  have r: "getSingletonDB_resume TimerWins (sys_world s)
      = (Inl (open_catch (TimeoutError OPEN_DB_TIMEOUT)), sys_world s)"
    by (simp add: getSingletonDB_resume_def)
  show ?thesis
  proof (cases "i < length (calls s) \<and> calls s ! i = Pending \<and> has_indexedDB (sys_world s)")
    case True
    have old: "\<forall>c\<in>set (calls s). \<forall>db. c = Finished (Inr db) \<longrightarrow>
        isActive (sys_world s) db \<and> singleton (sys_world s) = Some db"
      using assms(2) by (simp add: resolved_inv_def)
    have "\<forall>c\<in>set ((calls s)[i := Orphaned (Inl (open_catch (TimeoutError OPEN_DB_TIMEOUT)))]).
        \<forall>db. c = Finished (Inr db) \<longrightarrow>
          isActive (sys_world s) db \<and> singleton (sys_world s) = Some db"
      by (rule ball_update[OF old]) simp
    then show ?thesis
      using True r Timer by (simp add: resolved_inv_def step_def del: split_paired_All)
  next
    case False
    then show ?thesis using assms(2) Timer by (auto simp: step_def)
  qed
next
  case (Late i oe)
  then show ?thesis using assms(3) by simp
next
  case (HandleClosed db)
  then show ?thesis using assms(4) by simp
qed

lemma run_events_Nil: "run_events [] s = s"
  by (simp add: run_events_def)

lemma run_events_Cons: "run_events (ev # evs) s = run_events evs (step ev s)"
  by (simp add: run_events_def)

lemma run_conn_inv:
  "conn_inv s \<Longrightarrow> list_all (\<lambda>ev. \<not> is_Late ev) evs \<Longrightarrow> conn_inv (run_events evs s)"
proof (induction evs arbitrary: s)
  case Nil
  then show ?case by (simp add: run_events_Nil)
next
  case (Cons ev evs)
  have "conn_inv (step ev s)" using Cons.prems by (intro step_conn_inv) simp_all
  then show ?case using Cons.IH Cons.prems(2) by (simp add: run_events_Cons)
qed

lemma run_resolved_inv:
  "conn_inv s \<Longrightarrow> resolved_inv s \<Longrightarrow> list_all (\<lambda>ev. \<not> is_Late ev) evs
     \<Longrightarrow> list_all (\<lambda>ev. \<not> is_HandleClosed ev) evs \<Longrightarrow> resolved_inv (run_events evs s)"
proof (induction evs arbitrary: s)
  case Nil
  then show ?case by (simp add: run_events_Nil)
next
  case (Cons ev evs)
  have 1: "conn_inv (step ev s)" using Cons.prems by (intro step_conn_inv) simp_all
  have 2: "resolved_inv (step ev s)" using Cons.prems by (intro step_resolved_inv) simp_all
  show ?case using Cons.IH[OF 1 2] Cons.prems(3,4) by (simp add: run_events_Cons)
qed

lemma count_open_card:
  "count_open w = card {db. isActive w db}"
  by (simp add: count_open_def isActive_def length_filter_conv_card)

lemma count_open_le:
  assumes "only_current_open w"
  shows "count_open w \<le> 1"
proof -
  have "{db. isActive w db} \<subseteq> (case singleton w of None \<Rightarrow> {} | Some db \<Rightarrow> {db})"
    using assms by (auto simp: only_current_open_def split: option.splits)
  then have "card {db. isActive w db} \<le> card (case singleton w of None \<Rightarrow> {} | Some db \<Rightarrow> {db})"
    by (intro card_mono) (auto split: option.splits)
  also have "\<dots> \<le> 1" by (simp split: option.splits)
  finally show ?thesis by (simp add: count_open_card)
qed

lemma count_open_one:
  assumes "only_current_open w" and "singleton w = Some db" and "isActive w db"
  shows "count_open w = 1"
proof -
  have "\<And>x. isActive w x = (x = db)"
    using assms unfolding only_current_open_def by (metis option.inject)
  then have "{x. isActive w x} = {db}" by simp
  then show ?thesis unfolding count_open_card by simp
qed


lemma resume_duplicate:
  assumes "idb_open e w = (Inr db', w1)" and "singleton w = Some db" and "isActive w db"
  shows "getSingletonDB_resume (OpenSettles e) w = (Inr db, close db' w1)"
    and "\<not> isActive (close db' w1) db'" and "isActive (close db' w1) db"
    and "singleton (close db' w1) = Some db"
proof -
  note o = idb_open_handles[OF assms(1)]
  have len: "db < length (handles w)" using assms(3) by (rule isActive_bound)
  have a: "isActive w1 db" using isActive_append[OF o(2) len] assms(3) by simp
  show "getSingletonDB_resume (OpenSettles e) w = (Inr db, close db' w1)"
    using assms(1,2) a o(3) by (simp add: getSingletonDB_resume_def)
  show "\<not> isActive (close db' w1) db'" by (simp add: isActive_close)
  show "isActive (close db' w1) db" using a len o(1) by (simp add: isActive_close)
  show "singleton (close db' w1) = Some db" using o(3) assms(2) by (simp add: singleton_close)
qed

lemma init_inv:
  "singleton_exists w \<Longrightarrow> only_current_open w \<Longrightarrow> conn_inv (init w) \<and> resolved_inv (init w)"
  by (simp add: conn_inv_def resolved_inv_def init_def)

text \<open>
  Claim C4, as amended. When the \<open>open\<close> of a call resolves while another session is
  current and open, the new handle is closed at once and the call returns the current
  session. In every run in which no open request ends after its call has given it up
  (after the timer won, or after the request was reported blocked), every handle that is
  open is the current session, so at most one handle is open at any moment; and when no
  handle is closed from outside and at least one call has resolved, exactly one handle
  is open.
\<close>

theorem C4_single_session:
  assumes "singleton_exists w" and "only_current_open w"
    and "list_all (\<lambda>ev. \<not> is_Late ev) evs"
  shows "only_current_open (sys_world (run_events evs (init w)))
    \<and> count_open (sys_world (run_events evs (init w))) \<le> 1
    \<and> (list_all (\<lambda>ev. \<not> is_HandleClosed ev) evs
        \<and> list_ex is_resolved (calls (run_events evs (init w))) \<longrightarrow>
          count_open (sys_world (run_events evs (init w))) = 1)
    \<and> (idb_open e w = (Inr db', w1) \<and> singleton w = Some db \<and> isActive w db \<longrightarrow>
          getSingletonDB_resume (OpenSettles e) w = (Inr db, close db' w1)
          \<and> \<not> isActive (close db' w1) db' \<and> isActive (close db' w1) db
          \<and> singleton (close db' w1) = Some db)"
proof -
  let ?s = "run_events evs (init w)"
  have i: "conn_inv (init w)" "resolved_inv (init w)" using init_inv assms(1,2) by blast+
  have c: "conn_inv ?s" using run_conn_inv[OF i(1) assms(3)] .
  then have 1: "only_current_open (sys_world ?s)" by (simp add: conn_inv_def)
  have 2: "count_open (sys_world ?s) \<le> 1" using 1 by (rule count_open_le)
  have 3: "count_open (sys_world ?s) = 1"
    if h: "list_all (\<lambda>ev. \<not> is_HandleClosed ev) evs" and r: "list_ex is_resolved (calls ?s)"
  proof -
    have ri: "resolved_inv ?s" using run_resolved_inv[OF i assms(3) h] .
    obtain c where c: "c \<in> set (calls ?s)" "is_resolved c" using r by (auto simp: list_ex_iff)
    then obtain db where "c = Finished (Inr db)" by (cases c rule: is_resolved.cases) auto
    then have "isActive (sys_world ?s) db \<and> singleton (sys_world ?s) = Some db"
      using ri c(1) unfolding resolved_inv_def by blast
    then show ?thesis using count_open_one[OF 1] by blast
  qed
  show ?thesis using 1 2 3 resume_duplicate[of e w db' w1 db] by blast
qed

lemma ex_run:
  "run_events [Call, Call, Settle 0 EngineProceeds, Settle 1 EngineProceeds] (init fresh_world)
     = \<lparr>sys_world = \<lparr>has_indexedDB = True, version = 1,
            stores = [(IMAGE_MAP, \<lparr>rows = [], keygen = 1, indexNames = [IDX_ROW_COL]\<rparr>)],
            handles = [OPEN, CLOSED], singleton = Some 0\<rparr>,
         calls = [Finished (Inr 0), Finished (Inr 0)]\<rparr>"
  by (simp add: run_events_def step_def init_def fresh_world_def getSingletonDB_enter_def
      getSingletonDB_resume_def idb_open_def onsuccess_def onupgradeneeded_def
      createObjectStore_def createIndex_def contains_def objectStoreNames_def isActive_def
      close_def DATABASE_VERSION_def)

theorem C4_single_session_witness:
  "count_open (sys_world (run_events
      [Call, Call, Settle 0 EngineProceeds, Settle 1 EngineProceeds] (init fresh_world))) = 1
   \<and> handles (sys_world (run_events
      [Call, Call, Settle 0 EngineProceeds, Settle 1 EngineProceeds] (init fresh_world)))
     = [OPEN, CLOSED]"
proof -
  have a: "singleton_exists fresh_world" "only_current_open fresh_world"
    by (simp_all add: singleton_exists_def only_current_open_def isActive_def fresh_world_def)
  have b: "list_all (\<lambda>ev. \<not> is_Late ev)
      [Call, Call, Settle 0 EngineProceeds, Settle 1 EngineProceeds]" by simp
  have c: "list_all (\<lambda>ev. \<not> is_HandleClosed ev)
      [Call, Call, Settle 0 EngineProceeds, Settle 1 EngineProceeds]
     \<and> list_ex is_resolved (calls (run_events
      [Call, Call, Settle 0 EngineProceeds, Settle 1 EngineProceeds] (init fresh_world)))"
    unfolding ex_run by simp
  have "count_open (sys_world (run_events
      [Call, Call, Settle 0 EngineProceeds, Settle 1 EngineProceeds] (init fresh_world))) = 1"
    using C4_single_session[OF a b] c by blast
  then show ?thesis unfolding ex_run by simp
qed

text \<open>
  The claim as stated fails twice. A call whose timer fires first rejects, its open
  request succeeds later and leaves a handle open that nothing holds; a second call then
  opens another one: all calls have settled and two handles are open. And when the one
  open of a run fails, all calls have settled and no handle is open.
\<close>

theorem C4_single_session_counterexample:
  "all_settled (run_events
      [Call, Timer 0, Late 0 EngineProceeds, Call, Settle 1 EngineProceeds] (init fresh_world))
   \<and> count_open (sys_world (run_events
      [Call, Timer 0, Late 0 EngineProceeds, Call, Settle 1 EngineProceeds] (init fresh_world)))
     = 2
   \<and> all_settled (run_events
      [Call, Settle 0 (EngineError (DOMException ''UnknownError'' []))] (init fresh_world))
   \<and> count_open (sys_world (run_events
      [Call, Settle 0 (EngineError (DOMException ''UnknownError'' []))] (init fresh_world)))
     = 0"
  by (simp add: run_events_def step_def init_def fresh_world_def getSingletonDB_enter_def
      getSingletonDB_resume_def idb_open_def onsuccess_def onupgradeneeded_def
      createObjectStore_def createIndex_def contains_def objectStoreNames_def isActive_def
      close_def DATABASE_VERSION_def all_settled_def count_open_def open_catch_def
      instanceof_TimeoutError_def TimeoutError_def DOMException_def)

section \<open>The upserts keep the pairs unique\<close>

lemma key_for_Inr:
  assumes "key_for st v = Inr (k, st1)"
  shows "rows st1 = rows st" and "indexNames st1 = indexNames st"
    and "keygen st \<le> keygen st1" and "min k MAX_KEY < keygen st1"
    and "case id_of v of Some i \<Rightarrow> k = i | None \<Rightarrow> k = keygen st \<and> k \<le> MAX_KEY"
  using assms by (auto simp: key_for_def split: option.splits if_splits)

lemma store_record_Inr:
  assumes "store_record no st v = Inr st'"
  shows "\<exists>k. rows st' = filter (\<lambda>x. skey x \<noteq> k) (rows st)
        @ [\<lparr>skey = k, srow = row v, scol = col v, sdata = data v\<rparr>]
    \<and> indexNames st' = indexNames st
    \<and> keygen st \<le> keygen st' \<and> min k MAX_KEY < keygen st'
    \<and> (case id_of v of Some i \<Rightarrow> k = i | None \<Rightarrow> k = keygen st \<and> k \<le> MAX_KEY)
    \<and> (no \<longrightarrow> \<not> list_ex (\<lambda>x. skey x = k) (rows st))
    \<and> (IDX_ROW_COL \<in> set (indexNames st) \<longrightarrow>
       \<not> list_ex (\<lambda>x. skey x \<noteq> k \<and> srow x = row v \<and> scol x = col v) (rows st))"
proof -
  obtain k st1 where k: "key_for st v = Inr (k, st1)"
    using assms by (auto simp: store_record_def split: sum.splits)
  note f = key_for_Inr[OF k]
  have 1: "\<not> (no \<and> has_key st1 k)" and 2: "\<not> index_conflict st1
      \<lparr>skey = k, srow = row v, scol = col v, sdata = data v\<rparr>"
    and 3: "st' = st1\<lparr>rows := filter (\<lambda>x. skey x \<noteq> k) (rows st1)
        @ [\<lparr>skey = k, srow = row v, scol = col v, sdata = data v\<rparr>]\<rparr>"
    using assms k by (auto simp: store_record_def Let_def split: if_splits)
  have a: "rows st' = filter (\<lambda>x. skey x \<noteq> k) (rows st)
        @ [\<lparr>skey = k, srow = row v, scol = col v, sdata = data v\<rparr>]"
    using 3 f(1) by simp
  have b: "indexNames st' = indexNames st" using 3 f(2) by simp
  have c: "keygen st \<le> keygen st'" using 3 f(3) by simp
  have d: "min k MAX_KEY < keygen st'" using 3 f(4) by simp
  have e: "no \<longrightarrow> \<not> list_ex (\<lambda>x. skey x = k) (rows st)"
    using 1 f(1) by (simp add: has_key_def)
  have g: "IDX_ROW_COL \<in> set (indexNames st) \<longrightarrow>
       \<not> list_ex (\<lambda>x. skey x \<noteq> k \<and> srow x = row v \<and> scol x = col v) (rows st)"
    using 2 f(1,2) by (simp add: index_conflict_def)
  show ?thesis using a b c d e g f(5) by blast
qed

text \<open>Uniqueness of the pairs is kept by every write that the index checks.\<close>

lemma pairs_unique_filter:
  "pairs_unique st \<Longrightarrow> distinct (map (\<lambda>x. (srow x, scol x)) (filter P (rows st)))"
  by (simp add: pairs_unique_def distinct_map_filter)

lemma store_record_pairs_unique:
  assumes "store_record no st v = Inr st'" and "pairs_unique st"
    and "contains (indexNames st) IDX_ROW_COL"
  shows "pairs_unique st'"
proof -
  obtain k where
    r: "rows st' = filter (\<lambda>x. skey x \<noteq> k) (rows st)
        @ [\<lparr>skey = k, srow = row v, scol = col v, sdata = data v\<rparr>]"
    and c: "IDX_ROW_COL \<in> set (indexNames st) \<longrightarrow>
       \<not> list_ex (\<lambda>x. skey x \<noteq> k \<and> srow x = row v \<and> scol x = col v) (rows st)"
    using store_record_Inr[OF assms(1)] by blast
  have "\<not> list_ex (\<lambda>x. skey x \<noteq> k \<and> srow x = row v \<and> scol x = col v) (rows st)"
    using c assms(3) by (simp add: contains_def)
  then have "(row v, col v) \<notin> (\<lambda>x. (srow x, scol x)) ` set (filter (\<lambda>x. skey x \<noteq> k) (rows st))"
    by (auto simp: list_ex_iff)
  then show ?thesis
    using pairs_unique_filter[OF assms(2), of "\<lambda>x. skey x \<noteq> k"] by (simp add: pairs_unique_def r)
qed

lemma store_delete_pairs_unique: "pairs_unique st \<Longrightarrow> pairs_unique (store_delete st k)"
  using pairs_unique_filter[of st "\<lambda>x. skey x \<noteq> k"] by (simp add: pairs_unique_def store_delete_def)

lemma exec_write_pairs_unique:
  assumes "exec_write req st = Inr st'" and "pairs_unique st"
    and "contains (indexNames st) IDX_ROW_COL"
  shows "pairs_unique st'" and "indexNames st' = indexNames st"
proof -
  show "pairs_unique st'"
    using assms store_record_pairs_unique store_delete_pairs_unique
    by (cases req) (auto simp: exec_write_def store_add_def store_put_def)
  show "indexNames st' = indexNames st"
    using assms(1)
    using store_record_Inr[of True st _ st'] store_record_Inr[of False st _ st']
    by (cases req) (auto simp: exec_write_def store_add_def store_put_def store_delete_def)
qed

lemma write_request_unique:
  assumes "tx_unique tx" and "tx_indexed tx"
  shows "tx_unique (write_request tx IMAGE_MAP req)"
    and "tx_indexed (write_request tx IMAGE_MAP req)"
proof -
  have "tx_unique (write_request tx IMAGE_MAP req) \<and> tx_indexed (write_request tx IMAGE_MAP req)"
  proof (cases "tx_error tx \<noteq> None \<or> map_of (tx_view tx) IMAGE_MAP = None")
    case True
    then show ?thesis
      using assms by (auto simp: write_request_def tx_unique_def tx_indexed_def Let_def)
  next
    case False
    then obtain st where st: "map_of (tx_view tx) IMAGE_MAP = Some st" and e: "tx_error tx = None"
      by auto
    have u: "pairs_unique st" and i: "contains (indexNames st) IDX_ROW_COL"
      using assms st by (simp_all add: tx_unique_def tx_indexed_def)
    show ?thesis
    proof (cases "exec_write req st")
      case (Inl err)
      then show ?thesis
        using assms st e by (simp add: write_request_def tx_unique_def tx_indexed_def Let_def)
    next
      case (Inr st')
      then show ?thesis
        using exec_write_pairs_unique[OF Inr u i] i st e
        by (simp add: write_request_def tx_unique_def tx_indexed_def Let_def update_conv')
    qed
  qed
  then show "tx_unique (write_request tx IMAGE_MAP req)"
    and "tx_indexed (write_request tx IMAGE_MAP req)" by simp_all
qed

lemma getImageMaps_in_view:
  assumes "getImageMaps_in tx query w = (res, tx1, w1)"
  shows "tx_view tx1 = tx_view tx" and "tx_error tx1 = tx_error tx" and "w1 = w"
    and "\<forall>found. res = Inr found \<longrightarrow> tx_indexed tx"
  using assms
  by (auto simp: getImageMaps_in_def objectStore_def store_index_def getAll_request_def
      request2promise_def AbortError_def DOMException_def Let_def tx_indexed_def
      split: sum.splits option.splits if_splits prod.splits jsval.splits)

lemma tx_unique_view: "tx_view tx1 = tx_view tx \<Longrightarrow> tx_unique tx1 = tx_unique tx"
  by (simp add: tx_unique_def)

lemma tx_indexed_view: "tx_view tx1 = tx_view tx \<Longrightarrow> tx_indexed tx1 = tx_indexed tx"
  by (simp add: tx_indexed_def)

lemma setImageMap_writes_unique:
  assumes "tx_unique tx" and "tx_indexed tx"
  shows "tx_unique (setImageMap_writes tx found imageMap)"
  using assms write_request_unique
  by (auto simp: setImageMap_writes_def split: list.splits option.splits)

lemma setImageMap2_writes_unique:
  assumes "tx_unique tx" and "tx_indexed tx"
  shows "tx_unique (setImageMap2_writes tx found imageMap)"
  using assms write_request_unique
  by (auto simp: setImageMap2_writes_def split: list.splits)

lemma setImageMap3_write_unique:
  assumes "tx_unique tx" and "tx_indexed tx"
  shows "tx_unique (setImageMap3_write tx found imageMap)"
    and "tx_indexed (setImageMap3_write tx found imageMap)"
  using assms write_request_unique
  by (auto simp: setImageMap3_write_def split: list.splits option.splits)

lemma setImageMap_loop_unique:
  "tx_unique tx \<Longrightarrow> setImageMap_loop tx imageMaps w = (r, tx', w')
     \<Longrightarrow> tx_unique tx' \<and> w' = w"
proof (induction imageMaps arbitrary: tx w)
  case Nil
  then show ?case by simp
next
  case (Cons imageMap rest)
  obtain res tx1 w1 where g: "getImageMaps_in tx (key_query imageMap) w = (res, tx1, w1)"
    by (cases "getImageMaps_in tx (key_query imageMap) w") auto
  note v = getImageMaps_in_view[OF g]
  have u1: "tx_unique tx1" using Cons.prems(1) tx_unique_view[OF v(1)] by simp
  show ?case
  proof (cases res)
    case (Inl e)
    then have "(r, tx', w') = (Some e, tx1, w1)" using Cons.prems(2) g by simp
    then show ?thesis using u1 v(3) by simp
  next
    case (Inr found)
    then have "tx_indexed tx1" using v(4) tx_indexed_view[OF v(1)] by simp
    then have u2: "tx_unique (setImageMap_writes tx1 found imageMap)"
      using u1 by (rule setImageMap_writes_unique[rotated])
    have "setImageMap_loop tx (imageMap # rest) w
        = setImageMap_loop (setImageMap_writes tx1 found imageMap) rest w1"
      by (simp add: g Inr)
    then have "setImageMap_loop (setImageMap_writes tx1 found imageMap) rest w1 = (r, tx', w')"
      using Cons.prems(2) by simp
    from Cons.IH[OF u2 this] show ?thesis using v(3) by simp
  qed
qed

lemma setImageMap2_loop_unique:
  "tx_unique tx \<Longrightarrow> setImageMap2_loop tx imageMaps w = (r, tx', w')
     \<Longrightarrow> tx_unique tx' \<and> w' = w"
proof (induction imageMaps arbitrary: tx w)
  case Nil
  then show ?case by simp
next
  case (Cons imageMap rest)
  obtain res tx1 w1 where g: "getImageMaps_in tx (key_query imageMap) w = (res, tx1, w1)"
    by (cases "getImageMaps_in tx (key_query imageMap) w") auto
  note v = getImageMaps_in_view[OF g]
  have u1: "tx_unique tx1" using Cons.prems(1) tx_unique_view[OF v(1)] by simp
  show ?case
  proof (cases res)
    case (Inl e)
    then have "(r, tx', w') = (Some e, tx1, w1)" using Cons.prems(2) g by simp
    then show ?thesis using u1 v(3) by simp
  next
    case (Inr found)
    then have "tx_indexed tx1" using v(4) tx_indexed_view[OF v(1)] by simp
    then have u2: "tx_unique (setImageMap2_writes tx1 found imageMap)"
      using u1 by (rule setImageMap2_writes_unique[rotated])
    have "setImageMap2_loop tx (imageMap # rest) w
        = setImageMap2_loop (setImageMap2_writes tx1 found imageMap) rest w1"
      by (simp add: g Inr)
    then have "setImageMap2_loop (setImageMap2_writes tx1 found imageMap) rest w1 = (r, tx', w')"
      using Cons.prems(2) by simp
    from Cons.IH[OF u2 this] show ?thesis using v(3) by simp
  qed
qed

lemma setImageMap3_lookups_view:
  "setImageMap3_lookups tx imageMaps w = (tasks, tx', w')
     \<Longrightarrow> tx_view tx' = tx_view tx \<and> tx_error tx' = tx_error tx \<and> w' = w
         \<and> (list_ex is_found tasks \<longrightarrow> tx_indexed tx)"
proof (induction imageMaps arbitrary: tx w tasks tx' w')
  case Nil
  then show ?case by simp
next
  case (Cons imageMap rest)
  obtain res tx1 w1 where g: "getImageMaps_in tx (key_query imageMap) w = (res, tx1, w1)"
    by (cases "getImageMaps_in tx (key_query imageMap) w") auto
  obtain ts tx2 w2 where l: "setImageMap3_lookups tx1 rest w1 = (ts, tx2, w2)"
    by (cases "setImageMap3_lookups tx1 rest w1") auto
  note v = getImageMaps_in_view[OF g]
  note i = Cons.IH[OF l]
  have t: "tasks = (imageMap, res) # ts" "tx' = tx2" "w' = w2"
    using Cons.prems g l by simp_all
  have "list_ex is_found tasks \<longrightarrow> tx_indexed tx"
    using t(1) v(4) i tx_indexed_view[OF v(1)] by (cases res) auto
  then show ?case using t v i by simp
qed

lemma setImageMap3_writes_unique:
  "tx_unique tx \<Longrightarrow> (list_ex is_found tasks \<longrightarrow> tx_indexed tx)
     \<Longrightarrow> tx_unique (setImageMap3_writes tx tasks)"
proof (induction tx tasks rule: setImageMap3_writes.induct)
  case (1 tx)
  then show ?case by simp
next
  case (2 tx imageMap e tasks)
  then show ?case by simp
next
  case (3 tx imageMap found tasks)
  have i: "tx_indexed tx" using "3.prems"(2) by simp
  show ?case
    using "3.IH" setImageMap3_write_unique[OF "3.prems"(1) i] by simp
qed

lemma idb_open_unique:
  assumes "unique_pairs w"
  shows "unique_pairs (snd (idb_open ev w))"
proof (cases "fst (idb_open ev w)")
  case (Inl e)
  then show ?thesis using assms idb_open_failed[of ev w e] by simp
next
  case (Inr db)
  then have ev: "ev = EngineProceeds"
    by (cases ev) (auto simp: idb_open_def split: if_splits)
  obtain w1 where o: "idb_open EngineProceeds w = (Inr db, w1)"
    using Inr ev by (cases "idb_open EngineProceeds w") auto
  have "unique_pairs w1"
  proof (cases "image_map_store w")
    case None
    from idb_open_succeeded(6)[OF o] show ?thesis
    proof
      assume "version w = DATABASE_VERSION \<and> stores w1 = stores w"
      then show ?thesis using assms by (simp add: unique_pairs_def image_map_store_def)
    next
      assume a: "version w < DATABASE_VERSION \<and> snd (onupgradeneeded (stores w)) = Inr (stores w1)"
      show ?thesis
      proof (cases "stores w" rule: upgrade_cases)
        case (present st)
        then show ?thesis using None by (simp add: image_map_store_def)
      next
        case (index_added st)
        then show ?thesis using None by (simp add: image_map_store_def)
      next
        case (index_refused st)
        then show ?thesis using None by (simp add: image_map_store_def)
      next
        case created
        then have "stores w1 = stores w @ [(IMAGE_MAP, \<lparr>rows = [], keygen = 1, indexNames = [IDX_ROW_COL]\<rparr>)]"
          using a by simp
        then show ?thesis
          using created(1)
          by (simp add: unique_pairs_def image_map_store_def map_add_def pairs_unique_def)
      qed
    qed
  next
    case (Some st)
    then obtain st' where "map_of (stores w1) IMAGE_MAP = Some st'" "rows st' = rows st"
      using idb_open_keeps_rows[OF o, of IMAGE_MAP st] by (auto simp: image_map_store_def)
    then show ?thesis
      using assms Some by (simp add: unique_pairs_def image_map_store_def pairs_unique_def)
  qed
  then show ?thesis using o ev by simp
qed

lemma unique_pairs_stores: "stores w1 = stores w \<Longrightarrow> unique_pairs w1 = unique_pairs w"
  by (simp add: unique_pairs_def image_map_store_def)

lemma stores_close: "stores (close db w) = stores w"
  by (simp add: close_def)

lemma getSingletonDB_unique:
  assumes "unique_pairs w"
  shows "unique_pairs (snd (getSingletonDB run w))"
proof -
  have e: "unique_pairs (snd (getSingletonDB_enter w))"
    using assms unique_pairs_stores[of "w\<lparr>singleton := None\<rparr>" w]
    by (auto simp: getSingletonDB_enter_def split: option.splits)
  have r: "unique_pairs (snd (getSingletonDB_resume r w0))" if u: "unique_pairs w0" for r w0
  proof (cases r)
    case TimerWins
    then show ?thesis using u by (simp add: getSingletonDB_resume_def)
  next
    case (OpenSettles ev)
    obtain res w1 where o: "idb_open ev w0 = (res, w1)" by (cases "idb_open ev w0") auto
    have u1: "unique_pairs w1" using idb_open_unique[OF u, of ev] o by simp
    have "stores (snd (getSingletonDB_resume r w0)) = stores w1"
      using OpenSettles o
      by (auto simp: getSingletonDB_resume_def stores_close split: sum.splits option.splits)
    then show ?thesis using u1 unique_pairs_stores by blast
  qed
  show ?thesis
    using e r by (auto simp: getSingletonDB_def split: prod.splits entered.splits)
qed

lemma beginTransaction_unique:
  assumes "unique_pairs w" and "beginTransaction run names mode w = (res, w1)"
  shows "unique_pairs w1" and "\<forall>tx. res = Inr tx \<longrightarrow> tx_unique tx"
proof -
  obtain r w' where g: "getSingletonDB run w = (r, w')" by (cases "getSingletonDB run w") auto
  have u: "unique_pairs w'" using getSingletonDB_unique[OF assms(1), of run] g by simp
  have w1: "w1 = w'" using assms(2) g by (auto simp: beginTransaction_def split: sum.splits)
  show "unique_pairs w1" using u w1 by simp
  show "\<forall>tx. res = Inr tx \<longrightarrow> tx_unique tx"
    using assms(2) g u
    by (auto simp: beginTransaction_def db_transaction_def tx_unique_def unique_pairs_def
        image_map_store_def split: sum.splits if_splits)
qed

lemma engine_finish_unique:
  "unique_pairs w \<Longrightarrow> tx_unique tx \<Longrightarrow> unique_pairs (engine_finish tx w)"
  by (simp add: engine_finish_def unique_pairs_def tx_unique_def image_map_store_def)

lemma transaction2promise_stores:
  "stores (snd (transaction2promise tx ev w)) = stores w"
  by (cases ev) (simp_all add: transaction2promise_def stores_close)

lemma transaction2promise_unique:
  "unique_pairs w \<Longrightarrow> unique_pairs (snd (transaction2promise tx ev w))"
  using unique_pairs_stores[OF transaction2promise_stores] by blast

lemma setImageMap_unique:
  assumes "unique_pairs w"
  shows "unique_pairs (snd (setImageMap run imageMaps w))"
proof -
  obtain res w1 where b: "beginTransaction run [IMAGE_MAP] Readwrite w = (res, w1)"
    by (cases "beginTransaction run [IMAGE_MAP] Readwrite w") auto
  note u = beginTransaction_unique[OF assms b]
  show ?thesis
  proof (cases res)
    case (Inl e)
    then show ?thesis using b u(1) by (simp add: setImageMap_def)
  next
    case (Inr tx)
    then have t: "tx_unique tx" using u(2) by simp
    obtain r tx1 w2 where l: "setImageMap_loop tx (as_array imageMaps) w1 = (r, tx1, w2)"
      by (cases "setImageMap_loop tx (as_array imageMaps) w1") auto
    have t1: "tx_unique tx1" and w2: "w2 = w1" using setImageMap_loop_unique[OF t l] by simp_all
    have f: "unique_pairs (engine_finish tx1 w2)" "unique_pairs (engine_finish tx w1)"
      using engine_finish_unique u(1) t t1 w2 by simp_all
    show ?thesis
      using b Inr l f transaction2promise_unique[OF f(1)]
      by (auto simp: setImageMap_def split: sum.splits option.splits)
  qed
qed

lemma setImageMap2_unique:
  assumes "unique_pairs w"
  shows "unique_pairs (snd (setImageMap2 run imageMaps w))"
proof -
  obtain res w1 where b: "beginTransaction run [IMAGE_MAP] Readwrite w = (res, w1)"
    by (cases "beginTransaction run [IMAGE_MAP] Readwrite w") auto
  note u = beginTransaction_unique[OF assms b]
  show ?thesis
  proof (cases res)
    case (Inl e)
    then show ?thesis using b u(1) by (simp add: setImageMap2_def)
  next
    case (Inr tx)
    then have t: "tx_unique tx" using u(2) by simp
    obtain r tx1 w2 where l: "setImageMap2_loop tx (as_array imageMaps) w1 = (r, tx1, w2)"
      by (cases "setImageMap2_loop tx (as_array imageMaps) w1") auto
    have t1: "tx_unique tx1" and w2: "w2 = w1" using setImageMap2_loop_unique[OF t l] by simp_all
    have f: "unique_pairs (engine_finish tx1 w2)" "unique_pairs (engine_finish tx w1)"
      using engine_finish_unique u(1) t t1 w2 by simp_all
    show ?thesis
      using b Inr l f transaction2promise_unique[OF f(1)]
      by (auto simp: setImageMap2_def split: sum.splits option.splits)
  qed
qed

lemma setImageMap3_unique:
  assumes "unique_pairs w"
  shows "unique_pairs (snd (setImageMap3 run imageMaps w))"
proof -
  obtain res w1 where b: "beginTransaction run [IMAGE_MAP] Readwrite w = (res, w1)"
    by (cases "beginTransaction run [IMAGE_MAP] Readwrite w") auto
  note u = beginTransaction_unique[OF assms b]
  show ?thesis
  proof (cases res)
    case (Inl e)
    then show ?thesis using b u(1) by (simp add: setImageMap3_def)
  next
    case (Inr tx)
    then have t: "tx_unique tx" using u(2) by simp
    obtain tasks tx1 w2 where l: "setImageMap3_lookups tx (as_array imageMaps) w1 = (tasks, tx1, w2)"
      by (cases "setImageMap3_lookups tx (as_array imageMaps) w1") auto
    note v = setImageMap3_lookups_view[OF l]
    have t1: "tx_unique tx1" using t tx_unique_view[of tx1 tx] v by simp
    have i1: "list_ex is_found tasks \<longrightarrow> tx_indexed tx1"
      using v tx_indexed_view[of tx1 tx] by simp
    have t2: "tx_unique (setImageMap3_writes tx1 tasks)"
      using setImageMap3_writes_unique[OF t1 i1] .
    have w2: "w2 = w1" using v by simp
    have f: "unique_pairs (engine_finish (setImageMap3_writes tx1 tasks) w2)"
      "unique_pairs (engine_finish tx w1)"
      using engine_finish_unique u(1) t t2 w2 by simp_all
    obtain settled w3 where p: "transaction2promise (setImageMap3_writes tx1 tasks)
        (tx_outcome (setImageMap3_writes tx1 tasks))
        (engine_finish (setImageMap3_writes tx1 tasks) w2) = (settled, w3)"
      by (cases "transaction2promise (setImageMap3_writes tx1 tasks)
        (tx_outcome (setImageMap3_writes tx1 tasks))
        (engine_finish (setImageMap3_writes tx1 tasks) w2)") auto
    have u3: "unique_pairs w3"
      using transaction2promise_unique[OF f(1), of "setImageMap3_writes tx1 tasks"
          "tx_outcome (setImageMap3_writes tx1 tasks)"] p by simp
    show ?thesis
      using b Inr l f(2) p u3
      by (auto simp: setImageMap3_def Let_def split: sum.splits option.splits)
  qed
qed

text \<open>
  Claim C1. If the store holds at most one record for each pair of row and column, it
  still does after \<open>setImageMap\<close>, \<open>setImageMap2\<close> or \<open>setImageMap3\<close> on any batch,
  whether the transaction committed or not (an abort leaves the store as it was). The
  store of a database that was just created is empty. So the invariant holds after every
  sequence of upserts.
\<close>

theorem C1_upserts_keep_pairs_unique:
  assumes "unique_pairs w"
  shows "unique_pairs (snd (setImageMap run imageMaps w))
    \<and> unique_pairs (snd (setImageMap2 run imageMaps w))
    \<and> unique_pairs (snd (setImageMap3 run imageMaps w))
    \<and> unique_pairs fresh_world"
  using setImageMap_unique[OF assms] setImageMap2_unique[OF assms] setImageMap3_unique[OF assms]
  by (simp add: unique_pairs_def image_map_store_def fresh_world_def)

theorem C1_upserts_keep_pairs_unique_witness:
  "unique_pairs ex_world
   \<and> unique_pairs (snd (setImageMap quick
        (Array [\<lparr>id_of = None, row = 0, col = 0, data = [2]\<rparr>,
                \<lparr>id_of = None, row = 0, col = 1, data = [3]\<rparr>]) ex_world))
   \<and> unique_pairs (snd (setImageMap3 quick
        (Array [\<lparr>id_of = None, row = 5, col = 5, data = [2]\<rparr>,
                \<lparr>id_of = None, row = 5, col = 5, data = [3]\<rparr>]) ex_world))"
proof -
  have u: "unique_pairs ex_world"
    by (simp add: unique_pairs_def image_map_store_def pairs_unique_def ex_world_def ex_store_def)
  show ?thesis
    using u C1_upserts_keep_pairs_unique[OF u, of quick
        "Array [\<lparr>id_of = None, row = 0, col = 0, data = [2]\<rparr>,
                \<lparr>id_of = None, row = 0, col = 1, data = [3]\<rparr>]"]
      C1_upserts_keep_pairs_unique[OF u, of quick
        "Array [\<lparr>id_of = None, row = 5, col = 5, data = [2]\<rparr>,
                \<lparr>id_of = None, row = 5, col = 5, data = [3]\<rparr>]"]
    by blast
qed

section \<open>What a write leaves in the store\<close>

lemma filter_unique:
  "distinct (map f xs) \<Longrightarrow>
     filter (\<lambda>x. f x = y) xs = [] \<or> (\<exists>m. filter (\<lambda>x. f x = y) xs = [m])"
proof (induction xs)
  case Nil
  then show ?case by simp
next
  case (Cons a xs)
  show ?case
  proof (cases "f a = y")
    case True
    then have "y \<notin> f ` set xs" using Cons.prems by auto
    then have "filter (\<lambda>x. f x = y) xs = []" by (auto simp: filter_empty_conv)
    then show ?thesis using True by simp
  next
    case False
    then show ?thesis using Cons by simp
  qed
qed

lemma at_pair_alt: "at_pair st r c = filter (\<lambda>x. (srow x, scol x) = (r, c)) (rows st)"
  by (simp add: at_pair_def)

lemma at_pair_cases:
  assumes "pairs_unique st"
  shows "at_pair st r c = [] \<or> (\<exists>m. at_pair st r c = [m])"
  using filter_unique[of "\<lambda>x. (srow x, scol x)" "rows st" "(r, c)"] assms
  unfolding at_pair_alt pairs_unique_def by simp

lemma at_pair_member:
  "at_pair st r c = [m] \<Longrightarrow> m \<in> set (rows st) \<and> srow m = r \<and> scol m = c"
proof -
  assume "at_pair st r c = [m]"
  then have "m \<in> set (filter (\<lambda>x. srow x = r \<and> scol x = c) (rows st))"
    by (simp add: at_pair_def)
  then show ?thesis by simp
qed

lemma at_pair_of_member:
  assumes "pairs_unique st" and "m \<in> set (rows st)"
  shows "at_pair st (srow m) (scol m) = [m]"
proof -
  have "m \<in> set (at_pair st (srow m) (scol m))" using assms(2) by (simp add: at_pair_def)
  then show ?thesis using at_pair_cases[OF assms(1), of "srow m" "scol m"] by auto
qed

lemma index_getAll_at_pair:
  "index_getAll st r c = map to_ImageMap (sort_key skey (at_pair st r c))"
  by (simp add: index_getAll_def at_pair_def)

lemma keys_distinct_same:
  assumes "keys_distinct st" and "x \<in> set (rows st)" and "m \<in> set (rows st)"
    and "skey x = skey m"
  shows "x = m"
  using assms by (auto simp: keys_distinct_def distinct_map dest: inj_onD)

text \<open>What a successful \<open>add\<close> or \<open>put\<close> leaves in the store.\<close>

lemma store_record_effect:
  assumes "store_record no st v = Inr st'" and "wf_store st"
    and "no \<or> (\<exists>m \<in> set (rows st). id_of v = Some (skey m) \<and> srow m = row v \<and> scol m = col v)"
  shows "\<exists>k. wf_store st' \<and> keygen st \<le> keygen st'
    \<and> at_pair st' (row v) (col v) = [\<lparr>skey = k, srow = row v, scol = col v, sdata = data v\<rparr>]
    \<and> (\<forall>r c. \<not> (r = row v \<and> c = col v) \<longrightarrow> at_pair st' r c = at_pair st r c)
    \<and> (case id_of v of Some i \<Rightarrow> k = i | None \<Rightarrow> k = keygen st \<and> k \<le> MAX_KEY)
    \<and> (no \<longrightarrow> at_pair st (row v) (col v) = [])"
proof -
  obtain k where
    r: "rows st' = filter (\<lambda>x. skey x \<noteq> k) (rows st)
        @ [\<lparr>skey = k, srow = row v, scol = col v, sdata = data v\<rparr>]"
    and i: "indexNames st' = indexNames st"
    and g: "keygen st \<le> keygen st'" and b: "min k MAX_KEY < keygen st'"
    and kk: "case id_of v of Some i \<Rightarrow> k = i | None \<Rightarrow> k = keygen st \<and> k \<le> MAX_KEY"
    and nk: "no \<longrightarrow> \<not> list_ex (\<lambda>x. skey x = k) (rows st)"
    and nc: "IDX_ROW_COL \<in> set (indexNames st) \<longrightarrow>
       \<not> list_ex (\<lambda>x. skey x \<noteq> k \<and> srow x = row v \<and> scol x = col v) (rows st)"
    using store_record_Inr[OF assms(1)] by blast
  have wf: "pairs_unique st" "keys_distinct st" "keygen_ok st" "contains (indexNames st) IDX_ROW_COL"
    using assms(2) by (simp_all add: wf_store_def)
  have nc': "\<forall>x \<in> set (rows st). srow x = row v \<and> scol x = col v \<longrightarrow> skey x = k"
    using nc wf(4) by (auto simp: contains_def list_ex_iff)
  have 1: "pairs_unique st'"
    using store_record_pairs_unique[OF assms(1) wf(1) wf(4)] .
  have 2: "keys_distinct st'"
    using wf(2) by (auto simp: keys_distinct_def r distinct_map_filter)
  have 3: "keygen_ok st'"
    using wf(3) g b by (auto simp: keygen_ok_def r list_all_iff)
  have 4: "contains (indexNames st') IDX_ROW_COL" using wf(4) i by simp
  have 5: "at_pair st' (row v) (col v)
      = [\<lparr>skey = k, srow = row v, scol = col v, sdata = data v\<rparr>]"
  proof -
    have "filter (\<lambda>x. srow x = row v \<and> scol x = col v) (filter (\<lambda>x. skey x \<noteq> k) (rows st)) = []"
      using nc' by (auto simp: filter_empty_conv)
    then show ?thesis by (simp add: at_pair_def r)
  qed
  have other: "skey x \<noteq> k" if x: "x \<in> set (rows st)" and p: "\<not> (srow x = row v \<and> scol x = col v)" for x
  proof (cases no)
    case True
    then show ?thesis using nk x by (auto simp: list_ex_iff)
  next
    case False
    then obtain m where m: "m \<in> set (rows st)" "id_of v = Some (skey m)"
      "srow m = row v" "scol m = col v"
      using assms(3) by blast
    then have "k = skey m" using kk by simp
    then show ?thesis using keys_distinct_same[OF wf(2) x m(1)] m(3,4) p by auto
  qed
  have 6: "\<forall>r c. \<not> (r = row v \<and> c = col v) \<longrightarrow> at_pair st' r c = at_pair st r c"
  proof (intro allI impI)
    fix r c assume n: "\<not> (r = row v \<and> c = col v)"
    have "filter (\<lambda>x. srow x = r \<and> scol x = c) (filter (\<lambda>x. skey x \<noteq> k) (rows st))
        = filter (\<lambda>x. srow x = r \<and> scol x = c) (rows st)"
      unfolding filter_filter
      by (rule filter_cong) (use other n in auto)
    then show "at_pair st' r c = at_pair st r c" using n by (auto simp: at_pair_def r)
  qed
  have 7: "no \<longrightarrow> at_pair st (row v) (col v) = []"
  proof
    assume no
    then have "\<forall>x \<in> set (rows st). skey x \<noteq> k" using nk by (auto simp: list_ex_iff)
    then show "at_pair st (row v) (col v) = []"
      using nc' by (auto simp: at_pair_def filter_empty_conv)
  qed
  show ?thesis using 1 2 3 4 5 6 7 g kk unfolding wf_store_def by blast
qed

lemma store_delete_effect:
  assumes "wf_store st" and "at_pair st r c = [m]"
  shows "wf_store (store_delete st (skey m))"
    and "keygen (store_delete st (skey m)) = keygen st"
    and "at_pair (store_delete st (skey m)) r c = []"
    and "\<forall>r' c'. \<not> (r' = r \<and> c' = c) \<longrightarrow>
          at_pair (store_delete st (skey m)) r' c' = at_pair st r' c'"
proof -
  have wf: "pairs_unique st" "keys_distinct st" "keygen_ok st" "contains (indexNames st) IDX_ROW_COL"
    using assms(1) by (simp_all add: wf_store_def)
  note m = at_pair_member[OF assms(2)]
  show "wf_store (store_delete st (skey m))"
    using wf store_delete_pairs_unique[OF wf(1), of "skey m"]
    by (auto simp: wf_store_def keys_distinct_def keygen_ok_def store_delete_def
        distinct_map_filter list_all_iff)
  show "keygen (store_delete st (skey m)) = keygen st" by (simp add: store_delete_def)
  have "filter (\<lambda>x. skey x \<noteq> skey m) (at_pair st r c) = []" using assms(2) by simp
  then show "at_pair (store_delete st (skey m)) r c = []"
    by (simp add: at_pair_def store_delete_def conj_commute)
  show "\<forall>r' c'. \<not> (r' = r \<and> c' = c) \<longrightarrow>
          at_pair (store_delete st (skey m)) r' c' = at_pair st r' c'"
  proof (intro allI impI)
    fix r' c' assume n: "\<not> (r' = r \<and> c' = c)"
    have "filter (\<lambda>x. srow x = r' \<and> scol x = c') (filter (\<lambda>x. skey x \<noteq> skey m) (rows st))
        = filter (\<lambda>x. srow x = r' \<and> scol x = c') (rows st)"
      unfolding filter_filter
      by (rule filter_cong) (use keys_distinct_same[OF wf(2) _ m[THEN conjunct1]] m n in auto)
    then show "at_pair (store_delete st (skey m)) r' c' = at_pair st r' c'"
      by (simp add: at_pair_def store_delete_def)
  qed
qed

section \<open>Following one pair through an upsert\<close>

lemma write_request_log: "tx_log (write_request tx n req) = tx_log tx @ [req]"
  by (simp add: write_request_def Let_def split: option.splits sum.splits)

lemma write_request_aborted:
  "tx_error tx \<noteq> None \<Longrightarrow> tx_error (write_request tx n req) = tx_error tx"
  by (simp add: write_request_def Let_def)

lemma write_request_cases:
  assumes "tx_ok tx st"
  shows "(\<exists>e. exec_write req st = Inl e \<and> tx_error (write_request tx IMAGE_MAP req) = Some e)
    \<or> (\<exists>st'. exec_write req st = Inr st' \<and> tx_ok (write_request tx IMAGE_MAP req) st')"
  using assms
  by (cases "exec_write req st") (simp_all add: tx_ok_def write_request_def Let_def update_conv')

lemma write_request_done:
  assumes "tx_ok tx st" and "tx_error (write_request tx IMAGE_MAP req) = None"
  shows "\<exists>st'. exec_write req st = Inr st' \<and> tx_ok (write_request tx IMAGE_MAP req) st'"
  using write_request_cases[OF assms(1), of req] assms(2) by auto

lemma tx_ok_objectStore: "tx_ok tx st \<Longrightarrow> objectStore tx IMAGE_MAP = Inr st"
  by (simp add: tx_ok_def objectStore_def)

lemma tx_ok_log: "tx_ok tx st \<Longrightarrow> tx_ok (tx\<lparr>tx_log := l\<rparr>) st"
  by (simp add: tx_ok_def)

lemma lookup_ok:
  assumes "tx_ok tx st" and "wf_store st"
  shows "getImageMaps_in tx (key_query imageMap) w
     = (Inr (index_getAll st (row imageMap) (col imageMap)),
        tx\<lparr>tx_log := tx_log tx @ [GetAll IDX_ROW_COL (row imageMap) (col imageMap)]\<rparr>, w)"
proof -
  have "contains (indexNames st) IDX_ROW_COL" "tx_error tx = None"
    using assms by (simp_all add: wf_store_def tx_ok_def)
  then show ?thesis
    using getImageMaps_in_num[OF tx_ok_objectStore[OF assms(1)]]
    by (simp add: key_query_def)
qed

lemma lookup_aborted:
  assumes "tx_error tx \<noteq> None" and "getImageMaps_in tx query w = (res, tx1, w1)"
  shows "\<exists>e. res = Inl e" and "tx_error tx1 \<noteq> None"
proof -
  show "\<exists>e. res = Inl e"
    using assms
    by (auto simp: getImageMaps_in_def getAll_request_def request2promise_def Let_def
        split: sum.splits if_splits prod.splits jsval.splits)
  show "tx_error tx1 \<noteq> None"
    using assms(1) getImageMaps_in_view(2)[OF assms(2)] by simp
qed

lemma found_none: "at_pair st r c = [] \<Longrightarrow> index_getAll st r c = []"
  by (simp add: index_getAll_at_pair)

lemma found_one: "at_pair st r c = [m] \<Longrightarrow> index_getAll st r c = [to_ImageMap m]"
  by (simp add: index_getAll_at_pair)

lemma id_of_to_ImageMap: "id_of (to_ImageMap m) = Some (skey m)"
  by (simp add: to_ImageMap_def)

text \<open>A loop on a transaction that has aborted ends with the transaction aborted.\<close>

lemma setImageMap_loop_aborted:
  assumes "tx_error tx \<noteq> None" and "setImageMap_loop tx imageMaps w = (r, tx', w')"
  shows "tx_error tx' \<noteq> None"
proof (cases imageMaps)
  case Nil
  then show ?thesis using assms by simp
next
  case (Cons imageMap rest)
  obtain res tx1 w1 where g: "getImageMaps_in tx (key_query imageMap) w = (res, tx1, w1)"
    by (cases "getImageMaps_in tx (key_query imageMap) w") auto
  from lookup_aborted[OF assms(1) g] obtain e where "res = Inl e" and "tx_error tx1 \<noteq> None"
    by blast
  then show ?thesis using assms(2) Cons g by simp
qed

lemma setImageMap2_loop_aborted:
  assumes "tx_error tx \<noteq> None" and "setImageMap2_loop tx imageMaps w = (r, tx', w')"
  shows "tx_error tx' \<noteq> None"
proof (cases imageMaps)
  case Nil
  then show ?thesis using assms by simp
next
  case (Cons imageMap rest)
  obtain res tx1 w1 where g: "getImageMaps_in tx (key_query imageMap) w = (res, tx1, w1)"
    by (cases "getImageMaps_in tx (key_query imageMap) w") auto
  from lookup_aborted[OF assms(1) g] obtain e where "res = Inl e" and "tx_error tx1 \<noteq> None"
    by blast
  then show ?thesis using assms(2) Cons g by simp
qed

lemma setImageMap3_write_aborted:
  "tx_error tx \<noteq> None \<Longrightarrow> tx_error (setImageMap3_write tx found imageMap) = tx_error tx"
  by (simp add: setImageMap3_write_def write_request_aborted split: list.splits option.splits)

lemma setImageMap3_writes_aborted:
  "tx_error tx \<noteq> None \<Longrightarrow> tx_error (setImageMap3_writes tx tasks) \<noteq> None"
  by (induction tx tasks rule: setImageMap3_writes.induct)
     (simp_all add: setImageMap3_write_aborted)

text \<open>One record of \<open>setImageMap2\<close>: the write after its lookup.\<close>

lemma setImageMap2_step:
  assumes "tx_ok tx st" and "wf_store st"
    and "tx_error (setImageMap2_writes tx (index_getAll st (row v) (col v)) v) = None"
  shows "\<exists>st2. tx_ok (setImageMap2_writes tx (index_getAll st (row v) (col v)) v) st2
    \<and> wf_store st2
    \<and> (\<forall>r c m. at_pair st r c = [m] \<longrightarrow>
          at_pair st2 r c = [if r = row v \<and> c = col v
             then \<lparr>skey = skey m, srow = r, scol = c, sdata = data v\<rparr> else m])"
proof -
  have pu: "pairs_unique st" using assms(2) by (simp add: wf_store_def)
  from at_pair_cases[OF pu, of "row v" "col v"] show ?thesis
  proof
    assume e: "at_pair st (row v) (col v) = []"
    then have w: "setImageMap2_writes tx (index_getAll st (row v) (col v)) v
        = write_request tx IMAGE_MAP (Add v)"
      by (simp add: found_none setImageMap2_writes_def)
    obtain st2 where x: "exec_write (Add v) st = Inr st2"
      and ok: "tx_ok (write_request tx IMAGE_MAP (Add v)) st2"
      using write_request_done[OF assms(1), of "Add v"] assms(3) w by auto
    have "store_record True st v = Inr st2" using x by (simp add: exec_write_def store_add_def)
    from store_record_effect[OF this assms(2)] have
      f: "wf_store st2"
        "\<forall>r c. \<not> (r = row v \<and> c = col v) \<longrightarrow> at_pair st2 r c = at_pair st r c"
      by auto
    have "\<forall>r c m. at_pair st r c = [m] \<longrightarrow>
          at_pair st2 r c = [if r = row v \<and> c = col v
             then \<lparr>skey = skey m, srow = r, scol = c, sdata = data v\<rparr> else m]"
      using f(2) e by auto
    then show ?thesis using ok f(1) w by auto
  next
    assume "\<exists>m. at_pair st (row v) (col v) = [m]"
    then obtain m0 where m0: "at_pair st (row v) (col v) = [m0]" by blast
    note mm = at_pair_member[OF m0]
    let ?v = "v\<lparr>id_of := Some (skey m0)\<rparr>"
    have w: "setImageMap2_writes tx (index_getAll st (row v) (col v)) v
        = write_request tx IMAGE_MAP (Put ?v)"
      by (simp add: found_one[OF m0] setImageMap2_writes_def id_of_to_ImageMap)
    obtain st2 where x: "exec_write (Put ?v) st = Inr st2"
      and ok: "tx_ok (write_request tx IMAGE_MAP (Put ?v)) st2"
      using write_request_done[OF assms(1), of "Put ?v"] assms(3) w by auto
    have s: "store_record False st ?v = Inr st2"
      using x by (simp add: exec_write_def store_put_def)
    have "\<exists>m \<in> set (rows st). id_of ?v = Some (skey m) \<and> srow m = row ?v \<and> scol m = col ?v"
      using mm by auto
    from store_record_effect[OF s assms(2)] this obtain k :: int where
      f: "wf_store st2"
        "at_pair st2 (row v) (col v) = [\<lparr>skey = k, srow = row v, scol = col v, sdata = data v\<rparr>]"
        "\<forall>r c. \<not> (r = row v \<and> c = col v) \<longrightarrow> at_pair st2 r c = at_pair st r c"
        "k = skey m0"
      by auto
    have "\<forall>r c m. at_pair st r c = [m] \<longrightarrow>
          at_pair st2 r c = [if r = row v \<and> c = col v
             then \<lparr>skey = skey m, srow = r, scol = c, sdata = data v\<rparr> else m]"
      using f(2,3,4) m0 by auto
    then show ?thesis using ok f(1) w by auto
  qed
qed

lemma last_with_Cons_cases:
  "last_with r c (x # xs) =
     (case last_with r c xs of Some y \<Rightarrow> Some y
      | None \<Rightarrow> if row x = r \<and> col x = c then Some x else None)"
  by simp

lemma setImageMap2_loop_effect:
  "tx_ok tx st \<Longrightarrow> wf_store st \<Longrightarrow> setImageMap2_loop tx imageMaps w = (res, tx', w')
     \<Longrightarrow> tx_error tx' = None
     \<Longrightarrow> \<exists>st'. tx_ok tx' st' \<and> wf_store st'
          \<and> (\<forall>r c m. at_pair st r c = [m] \<longrightarrow>
                at_pair st' r c =
                  [case last_with r c imageMaps of None \<Rightarrow> m
                   | Some v \<Rightarrow> \<lparr>skey = skey m, srow = r, scol = c, sdata = data v\<rparr>])"
proof (induction imageMaps arbitrary: tx st)
  case Nil
  then show ?case by auto
next
  case (Cons v rest)
  let ?tx1 = "tx\<lparr>tx_log := tx_log tx @ [GetAll IDX_ROW_COL (row v) (col v)]\<rparr>"
  let ?found = "index_getAll st (row v) (col v)"
  let ?tx2 = "setImageMap2_writes ?tx1 ?found v"
  have ok1: "tx_ok ?tx1 st" using Cons.prems(1) by (rule tx_ok_log)
  have l: "setImageMap2_loop ?tx2 rest w = (res, tx', w')"
    using Cons.prems(3) lookup_ok[OF Cons.prems(1,2), of v w] by simp
  have e2: "tx_error ?tx2 = None"
    using setImageMap2_loop_aborted[OF _ l] Cons.prems(4) by blast
  from setImageMap2_step[OF ok1 Cons.prems(2) e2] obtain st2 where
    s: "tx_ok ?tx2 st2" "wf_store st2"
      "\<forall>r c m. at_pair st r c = [m] \<longrightarrow>
          at_pair st2 r c = [if r = row v \<and> c = col v
             then \<lparr>skey = skey m, srow = r, scol = c, sdata = data v\<rparr> else m]"
    by blast
  from Cons.IH[OF s(1,2) l Cons.prems(4)] obtain st' where
    i: "tx_ok tx' st'" "wf_store st'"
      "\<forall>r c m. at_pair st2 r c = [m] \<longrightarrow>
                at_pair st' r c =
                  [case last_with r c rest of None \<Rightarrow> m
                   | Some y \<Rightarrow> \<lparr>skey = skey m, srow = r, scol = c, sdata = data y\<rparr>]"
    by blast
  have "\<forall>r c m. at_pair st r c = [m] \<longrightarrow>
                at_pair st' r c =
                  [case last_with r c (v # rest) of None \<Rightarrow> m
                   | Some y \<Rightarrow> \<lparr>skey = skey m, srow = r, scol = c, sdata = data y\<rparr>]"
  proof (intro allI impI)
    fix r c m assume a: "at_pair st r c = [m]"
    let ?m2 = "if r = row v \<and> c = col v
             then \<lparr>skey = skey m, srow = r, scol = c, sdata = data v\<rparr> else m"
    have 2: "at_pair st2 r c = [?m2]" using s(3) a by blast
    have k: "skey ?m2 = skey m" by simp
    have "at_pair st' r c = [case last_with r c rest of None \<Rightarrow> ?m2
                   | Some y \<Rightarrow> \<lparr>skey = skey ?m2, srow = r, scol = c, sdata = data y\<rparr>]"
      using i(3) 2 by blast
    then show "at_pair st' r c =
                  [case last_with r c (v # rest) of None \<Rightarrow> m
                   | Some y \<Rightarrow> \<lparr>skey = skey m, srow = r, scol = c, sdata = data y\<rparr>]"
      unfolding k by (auto split: option.splits)
  qed
  then show ?case using i(1,2) by blast
qed

text \<open>One record of \<open>setImageMap3\<close>: its write, decided by the lookup on the store as it was
  when the transaction began.\<close>

lemma setImageMap3_step:
  assumes "tx_ok tx st" and "wf_store st" and "wf_store st0" and "keys_kept st0 st"
    and "tx_error (setImageMap3_write tx (index_getAll st0 (row v) (col v)) v) = None"
  shows "\<exists>st2. tx_ok (setImageMap3_write tx (index_getAll st0 (row v) (col v)) v) st2
    \<and> wf_store st2 \<and> keys_kept st0 st2
    \<and> (\<forall>r c m. at_pair st r c = [m] \<longrightarrow>
          at_pair st2 r c = [if r = row v \<and> c = col v
             then \<lparr>skey = skey m, srow = r, scol = c, sdata = data v\<rparr> else m])"
proof -
  have pu: "pairs_unique st0" using assms(3) by (simp add: wf_store_def)
  have add: "\<exists>st2. tx_ok (write_request tx IMAGE_MAP (Add v)) st2
      \<and> wf_store st2 \<and> at_pair st (row v) (col v) = []
      \<and> (\<forall>r c. \<not> (r = row v \<and> c = col v) \<longrightarrow> at_pair st2 r c = at_pair st r c)"
    if e: "tx_error (write_request tx IMAGE_MAP (Add v)) = None"
  proof -
    obtain st2 where x: "exec_write (Add v) st = Inr st2"
      and ok: "tx_ok (write_request tx IMAGE_MAP (Add v)) st2"
      using write_request_done[OF assms(1), of "Add v"] e by auto
    have "store_record True st v = Inr st2" using x by (simp add: exec_write_def store_add_def)
    from store_record_effect[OF this assms(2)] have
      "wf_store st2" "at_pair st (row v) (col v) = []"
      "\<forall>r c. \<not> (r = row v \<and> c = col v) \<longrightarrow> at_pair st2 r c = at_pair st r c"
      by auto
    then show ?thesis using ok by blast
  qed
  from at_pair_cases[OF pu, of "row v" "col v"] show ?thesis
  proof
    assume e0: "at_pair st0 (row v) (col v) = []"
    then have w: "setImageMap3_write tx (index_getAll st0 (row v) (col v)) v
        = write_request tx IMAGE_MAP (Add v)"
      by (simp add: found_none setImageMap3_write_def)
    from add obtain st2 where
      f: "tx_ok (write_request tx IMAGE_MAP (Add v)) st2" "wf_store st2"
        "at_pair st (row v) (col v) = []"
        "\<forall>r c. \<not> (r = row v \<and> c = col v) \<longrightarrow> at_pair st2 r c = at_pair st r c"
      using assms(5) w by auto
    have 1: "\<forall>r c m. at_pair st r c = [m] \<longrightarrow>
          at_pair st2 r c = [if r = row v \<and> c = col v
             then \<lparr>skey = skey m, srow = r, scol = c, sdata = data v\<rparr> else m]"
      using f(3,4) by auto
    have 2: "keys_kept st0 st2"
      unfolding keys_kept_def
    proof (intro allI impI)
      fix r c m assume a: "at_pair st0 r c = [m]"
      then have "\<not> (r = row v \<and> c = col v)" using e0 by auto
      then have "at_pair st2 r c = at_pair st r c" using f(4) by blast
      then show "\<exists>x. at_pair st2 r c = [x] \<and> skey x = skey m"
        using assms(4) a unfolding keys_kept_def by auto
    qed
    show ?thesis using f(1,2) 1 2 w by auto
  next
    assume "\<exists>m. at_pair st0 (row v) (col v) = [m]"
    then obtain m0 where m0: "at_pair st0 (row v) (col v) = [m0]" by blast
    obtain x0 where x0: "at_pair st (row v) (col v) = [x0]" "skey x0 = skey m0"
      using assms(4) m0 unfolding keys_kept_def by blast
    note mm = at_pair_member[OF x0(1)]
    let ?v = "v\<lparr>id_of := Some (skey m0)\<rparr>"
    have nz: "skey m0 \<noteq> 0"
    proof
      assume z: "skey m0 = 0"
      then have "setImageMap3_write tx (index_getAll st0 (row v) (col v)) v
        = write_request tx IMAGE_MAP (Add v)"
        by (simp add: found_one[OF m0] setImageMap3_write_def id_of_to_ImageMap)
      then have "at_pair st (row v) (col v) = []" using add assms(5) by auto
      then show False using x0(1) by simp
    qed
    then have w: "setImageMap3_write tx (index_getAll st0 (row v) (col v)) v
        = write_request tx IMAGE_MAP (Put ?v)"
      by (simp add: found_one[OF m0] setImageMap3_write_def id_of_to_ImageMap)
    obtain st2 where x: "exec_write (Put ?v) st = Inr st2"
      and ok: "tx_ok (write_request tx IMAGE_MAP (Put ?v)) st2"
      using write_request_done[OF assms(1), of "Put ?v"] assms(5) w by auto
    have s: "store_record False st ?v = Inr st2"
      using x by (simp add: exec_write_def store_put_def)
    have "\<exists>m \<in> set (rows st). id_of ?v = Some (skey m) \<and> srow m = row ?v \<and> scol m = col ?v"
      using mm x0(2) by (intro bexI[of _ x0]) auto
    from store_record_effect[OF s assms(2)] this obtain k :: int where
      f: "wf_store st2"
        "at_pair st2 (row v) (col v) = [\<lparr>skey = k, srow = row v, scol = col v, sdata = data v\<rparr>]"
        "\<forall>r c. \<not> (r = row v \<and> c = col v) \<longrightarrow> at_pair st2 r c = at_pair st r c"
        "k = skey m0"
      by auto
    have 1: "\<forall>r c m. at_pair st r c = [m] \<longrightarrow>
          at_pair st2 r c = [if r = row v \<and> c = col v
             then \<lparr>skey = skey m, srow = r, scol = c, sdata = data v\<rparr> else m]"
      using f(2,3,4) x0 by auto
    have 2: "keys_kept st0 st2"
      unfolding keys_kept_def
    proof (intro allI impI)
      fix r c m assume a: "at_pair st0 r c = [m]"
      show "\<exists>x. at_pair st2 r c = [x] \<and> skey x = skey m"
      proof (cases "r = row v \<and> c = col v")
        case True
        then show ?thesis using f(2,4) a m0 by auto
      next
        case False
        then have "at_pair st2 r c = at_pair st r c" using f(3) by blast
        then show ?thesis using assms(4) a unfolding keys_kept_def by auto
      qed
    qed
    show ?thesis using ok f(1) 1 2 w by auto
  qed
qed

lemma setImageMap3_lookups_ok:
  "tx_ok tx st \<Longrightarrow> wf_store st
     \<Longrightarrow> \<exists>tx1. setImageMap3_lookups tx imageMaps w = (tasks_of st imageMaps, tx1, w)
           \<and> tx_ok tx1 st"
proof (induction imageMaps arbitrary: tx)
  case Nil
  then show ?case by (simp add: tasks_of_def)
next
  case (Cons v rest)
  let ?tx1 = "tx\<lparr>tx_log := tx_log tx @ [GetAll IDX_ROW_COL (row v) (col v)]\<rparr>"
  have ok1: "tx_ok ?tx1 st" using Cons.prems(1) by (rule tx_ok_log)
  from Cons.IH[OF ok1 Cons.prems(2)] obtain tx2 where
    "setImageMap3_lookups ?tx1 rest w = (tasks_of st rest, tx2, w)" "tx_ok tx2 st"
    by blast
  then show ?case
    using lookup_ok[OF Cons.prems(1,2), of v w] by (simp add: tasks_of_def)
qed

lemma first_rejection_tasks_of: "first_rejection (tasks_of st imageMaps) = None"
  by (induction imageMaps) (simp_all add: tasks_of_def)

lemma setImageMap3_writes_effect:
  "tx_ok tx st \<Longrightarrow> wf_store st \<Longrightarrow> wf_store st0 \<Longrightarrow> keys_kept st0 st
     \<Longrightarrow> tx_error (setImageMap3_writes tx (tasks_of st0 imageMaps)) = None
     \<Longrightarrow> \<exists>st'. tx_ok (setImageMap3_writes tx (tasks_of st0 imageMaps)) st' \<and> wf_store st'
          \<and> (\<forall>r c m. at_pair st r c = [m] \<longrightarrow>
                at_pair st' r c =
                  [case last_with r c imageMaps of None \<Rightarrow> m
                   | Some v \<Rightarrow> \<lparr>skey = skey m, srow = r, scol = c, sdata = data v\<rparr>])"
proof (induction imageMaps arbitrary: tx st)
  case Nil
  then show ?case by (auto simp: tasks_of_def)
next
  case (Cons v rest)
  let ?tx2 = "setImageMap3_write tx (index_getAll st0 (row v) (col v)) v"
  have u: "setImageMap3_writes tx (tasks_of st0 (v # rest))
      = setImageMap3_writes ?tx2 (tasks_of st0 rest)"
    by (simp add: tasks_of_def)
  have e': "tx_error (setImageMap3_writes ?tx2 (tasks_of st0 rest)) = None"
    using Cons.prems(5) u by simp
  have e2: "tx_error ?tx2 = None"
  proof (rule ccontr)
    assume "tx_error ?tx2 \<noteq> None"
    from setImageMap3_writes_aborted[OF this, of "tasks_of st0 rest"] e' show False by blast
  qed
  from setImageMap3_step[OF Cons.prems(1,2,3,4) e2] obtain st2 where
    s: "tx_ok ?tx2 st2" "wf_store st2" "keys_kept st0 st2"
      "\<forall>r c m. at_pair st r c = [m] \<longrightarrow>
          at_pair st2 r c = [if r = row v \<and> c = col v
             then \<lparr>skey = skey m, srow = r, scol = c, sdata = data v\<rparr> else m]"
    by blast
  from Cons.IH[OF s(1,2) Cons.prems(3) s(3) e'] obtain st' where
    i: "tx_ok (setImageMap3_writes ?tx2 (tasks_of st0 rest)) st'" "wf_store st'"
      "\<forall>r c m. at_pair st2 r c = [m] \<longrightarrow>
                at_pair st' r c =
                  [case last_with r c rest of None \<Rightarrow> m
                   | Some y \<Rightarrow> \<lparr>skey = skey m, srow = r, scol = c, sdata = data y\<rparr>]"
    by blast
  have "\<forall>r c m. at_pair st r c = [m] \<longrightarrow>
                at_pair st' r c =
                  [case last_with r c (v # rest) of None \<Rightarrow> m
                   | Some y \<Rightarrow> \<lparr>skey = skey m, srow = r, scol = c, sdata = data y\<rparr>]"
  proof (intro allI impI)
    fix r c m assume a: "at_pair st r c = [m]"
    let ?m2 = "if r = row v \<and> c = col v
             then \<lparr>skey = skey m, srow = r, scol = c, sdata = data v\<rparr> else m"
    have 2: "at_pair st2 r c = [?m2]" using s(4) a by blast
    have k: "skey ?m2 = skey m" by simp
    have "at_pair st' r c = [case last_with r c rest of None \<Rightarrow> ?m2
                   | Some y \<Rightarrow> \<lparr>skey = skey ?m2, srow = r, scol = c, sdata = data y\<rparr>]"
      using i(3) 2 by blast
    then show "at_pair st' r c =
                  [case last_with r c (v # rest) of None \<Rightarrow> m
                   | Some y \<Rightarrow> \<lparr>skey = skey m, srow = r, scol = c, sdata = data y\<rparr>]"
      unfolding k by (auto split: option.splits)
  qed
  then show ?case using i(1,2) u by auto
qed

lemma keys_kept_refl: "pairs_unique st \<Longrightarrow> keys_kept st st"
  by (simp add: keys_kept_def)

text \<open>One record of \<open>setImageMap\<close>: delete and add, or add alone.\<close>

lemma add_request_effect:
  assumes "tx_ok tx st" and "wf_store st"
    and "tx_error (write_request tx IMAGE_MAP (Add v)) = None"
  shows "\<exists>st2 k. tx_ok (write_request tx IMAGE_MAP (Add v)) st2 \<and> wf_store st2
    \<and> keygen st \<le> keygen st2 \<and> at_pair st (row v) (col v) = []
    \<and> at_pair st2 (row v) (col v) = [\<lparr>skey = k, srow = row v, scol = col v, sdata = data v\<rparr>]
    \<and> (case id_of v of Some i \<Rightarrow> k = i | None \<Rightarrow> keygen st \<le> k \<and> k \<le> MAX_KEY)
    \<and> (\<forall>r c. \<not> (r = row v \<and> c = col v) \<longrightarrow> at_pair st2 r c = at_pair st r c)"
proof -
  obtain st2 where x: "exec_write (Add v) st = Inr st2"
    and ok: "tx_ok (write_request tx IMAGE_MAP (Add v)) st2"
    using write_request_done[OF assms(1), of "Add v"] assms(3) by auto
  have "store_record True st v = Inr st2" using x by (simp add: exec_write_def store_add_def)
  from store_record_effect[OF this assms(2)] obtain k :: int where
    f: "wf_store st2" "keygen st \<le> keygen st2" "at_pair st (row v) (col v) = []"
      "at_pair st2 (row v) (col v) = [\<lparr>skey = k, srow = row v, scol = col v, sdata = data v\<rparr>]"
      "\<forall>r c. \<not> (r = row v \<and> c = col v) \<longrightarrow> at_pair st2 r c = at_pair st r c"
      "case id_of v of Some i \<Rightarrow> k = i | None \<Rightarrow> k = keygen st \<and> k \<le> MAX_KEY"
    by auto
  have "case id_of v of Some i \<Rightarrow> k = i | None \<Rightarrow> keygen st \<le> k \<and> k \<le> MAX_KEY"
    using f(6) by (auto split: option.splits)
  then show ?thesis using ok f(1-5) by blast
qed

lemma delete_request_effect:
  assumes "tx_ok tx st"
  shows "tx_ok (write_request tx IMAGE_MAP (Delete k)) (store_delete st k)"
  using write_request_cases[OF assms, of "Delete k"] by (auto simp: exec_write_def)

lemma setImageMap_step:
  assumes "tx_ok tx st" and "wf_store st"
    and "tx_error (setImageMap_writes tx (index_getAll st (row v) (col v)) v) = None"
  shows "\<exists>st2 k. tx_ok (setImageMap_writes tx (index_getAll st (row v) (col v)) v) st2
    \<and> wf_store st2 \<and> keygen st \<le> keygen st2
    \<and> at_pair st2 (row v) (col v) = [\<lparr>skey = k, srow = row v, scol = col v, sdata = data v\<rparr>]
    \<and> (case id_of v of Some i \<Rightarrow> k = i | None \<Rightarrow> keygen st \<le> k \<and> k \<le> MAX_KEY)
    \<and> (\<forall>r c. \<not> (r = row v \<and> c = col v) \<longrightarrow> at_pair st2 r c = at_pair st r c)"
proof -
  have pu: "pairs_unique st" using assms(2) by (simp add: wf_store_def)
  from at_pair_cases[OF pu, of "row v" "col v"] show ?thesis
  proof
    assume e: "at_pair st (row v) (col v) = []"
    then have w: "setImageMap_writes tx (index_getAll st (row v) (col v)) v
        = write_request tx IMAGE_MAP (Add v)"
      by (simp add: found_none setImageMap_writes_def)
    show ?thesis using add_request_effect[OF assms(1,2), of v] assms(3) unfolding w by blast
  next
    assume "\<exists>m. at_pair st (row v) (col v) = [m]"
    then obtain m0 where m0: "at_pair st (row v) (col v) = [m0]" by blast
    have nz: "skey m0 \<noteq> 0"
    proof
      assume z: "skey m0 = 0"
      then have w: "setImageMap_writes tx (index_getAll st (row v) (col v)) v
        = write_request tx IMAGE_MAP (Add v)"
        by (simp add: found_one[OF m0] setImageMap_writes_def id_of_to_ImageMap)
      have "at_pair st (row v) (col v) = []"
        using add_request_effect[OF assms(1,2), of v] assms(3) unfolding w by blast
      then show False using m0 by simp
    qed
    let ?txd = "write_request tx IMAGE_MAP (Delete (skey m0))"
    let ?std = "store_delete st (skey m0)"
    have w: "setImageMap_writes tx (index_getAll st (row v) (col v)) v
        = write_request ?txd IMAGE_MAP (Add v)"
      using nz by (simp add: found_one[OF m0] setImageMap_writes_def id_of_to_ImageMap)
    have okd: "tx_ok ?txd ?std" using assms(1) by (rule delete_request_effect)
    note d = store_delete_effect[OF assms(2) m0]
    from add_request_effect[OF okd d(1), of v] assms(3) obtain st2 k where
      f: "tx_ok (write_request ?txd IMAGE_MAP (Add v)) st2" "wf_store st2"
        "keygen ?std \<le> keygen st2"
        "at_pair st2 (row v) (col v) = [\<lparr>skey = k, srow = row v, scol = col v, sdata = data v\<rparr>]"
        "case id_of v of Some i \<Rightarrow> k = i | None \<Rightarrow> keygen ?std \<le> k \<and> k \<le> MAX_KEY"
        "\<forall>r c. \<not> (r = row v \<and> c = col v) \<longrightarrow> at_pair st2 r c = at_pair ?std r c"
      unfolding w by blast
    have 1: "keygen st \<le> keygen st2" using f(3) d(2) by simp
    have 2: "case id_of v of Some i \<Rightarrow> k = i | None \<Rightarrow> keygen st \<le> k \<and> k \<le> MAX_KEY"
      using f(5) unfolding d(2) .
    have 3: "\<forall>r c. \<not> (r = row v \<and> c = col v) \<longrightarrow> at_pair st2 r c = at_pair st r c"
      using f(6) d(4) by simp
    show ?thesis using f(1,2,4) 1 2 3 unfolding w by blast
  qed
qed

lemma setImageMap_loop_effect:
  "tx_ok tx st \<Longrightarrow> wf_store st \<Longrightarrow> setImageMap_loop tx imageMaps w = (res, tx', w')
     \<Longrightarrow> tx_error tx' = None
     \<Longrightarrow> \<exists>st'. tx_ok tx' st' \<and> wf_store st' \<and> keygen st \<le> keygen st'
          \<and> (\<forall>r c. case last_with r c imageMaps of
                None \<Rightarrow> at_pair st' r c = at_pair st r c
              | Some v \<Rightarrow> \<exists>k. at_pair st' r c = [\<lparr>skey = k, srow = r, scol = c, sdata = data v\<rparr>]
                  \<and> (case id_of v of Some i \<Rightarrow> k = i
                      | None \<Rightarrow> keygen st \<le> k \<and> k \<le> MAX_KEY))"
proof (induction imageMaps arbitrary: tx st)
  case Nil
  then show ?case by auto
next
  case (Cons v rest)
  let ?tx1 = "tx\<lparr>tx_log := tx_log tx @ [GetAll IDX_ROW_COL (row v) (col v)]\<rparr>"
  let ?found = "index_getAll st (row v) (col v)"
  let ?tx2 = "setImageMap_writes ?tx1 ?found v"
  have ok1: "tx_ok ?tx1 st" using Cons.prems(1) by (rule tx_ok_log)
  have l: "setImageMap_loop ?tx2 rest w = (res, tx', w')"
    using Cons.prems(3) lookup_ok[OF Cons.prems(1,2), of v w] by simp
  have e2: "tx_error ?tx2 = None"
    using setImageMap_loop_aborted[OF _ l] Cons.prems(4) by blast
  from setImageMap_step[OF ok1 Cons.prems(2) e2] obtain st2 k2 where
    s: "tx_ok ?tx2 st2" "wf_store st2" "keygen st \<le> keygen st2"
      "at_pair st2 (row v) (col v)
         = [\<lparr>skey = k2, srow = row v, scol = col v, sdata = data v\<rparr>]"
      "case id_of v of Some i \<Rightarrow> k2 = i | None \<Rightarrow> keygen st \<le> k2 \<and> k2 \<le> MAX_KEY"
      "\<forall>r c. \<not> (r = row v \<and> c = col v) \<longrightarrow> at_pair st2 r c = at_pair st r c"
    by blast
  from Cons.IH[OF s(1,2) l Cons.prems(4)] obtain st' where
    i: "tx_ok tx' st'" "wf_store st'" "keygen st2 \<le> keygen st'"
      "\<forall>r c. case last_with r c rest of
                None \<Rightarrow> at_pair st' r c = at_pair st2 r c
              | Some y \<Rightarrow> \<exists>k. at_pair st' r c = [\<lparr>skey = k, srow = r, scol = c, sdata = data y\<rparr>]
                  \<and> (case id_of y of Some i \<Rightarrow> k = i
                      | None \<Rightarrow> keygen st2 \<le> k \<and> k \<le> MAX_KEY)"
    by blast
  have "\<forall>r c. case last_with r c (v # rest) of
                None \<Rightarrow> at_pair st' r c = at_pair st r c
              | Some y \<Rightarrow> \<exists>k. at_pair st' r c = [\<lparr>skey = k, srow = r, scol = c, sdata = data y\<rparr>]
                  \<and> (case id_of y of Some i \<Rightarrow> k = i
                      | None \<Rightarrow> keygen st \<le> k \<and> k \<le> MAX_KEY)"
  proof (intro allI)
    fix r c
    show "case last_with r c (v # rest) of
                None \<Rightarrow> at_pair st' r c = at_pair st r c
              | Some y \<Rightarrow> \<exists>k. at_pair st' r c = [\<lparr>skey = k, srow = r, scol = c, sdata = data y\<rparr>]
                  \<and> (case id_of y of Some i \<Rightarrow> k = i
                      | None \<Rightarrow> keygen st \<le> k \<and> k \<le> MAX_KEY)"
    proof (cases "last_with r c rest")
      case (Some y)
      then obtain k where k: "at_pair st' r c = [\<lparr>skey = k, srow = r, scol = c, sdata = data y\<rparr>]"
        "case id_of y of Some i \<Rightarrow> k = i | None \<Rightarrow> keygen st2 \<le> k \<and> k \<le> MAX_KEY"
        using i(4)[rule_format, of r c] by auto
      have "case id_of y of Some i \<Rightarrow> k = i | None \<Rightarrow> keygen st \<le> k \<and> k \<le> MAX_KEY"
        using k(2) s(3) by (auto split: option.splits)
      then show ?thesis using Some k(1) by auto
    next
      case None
      then have eq: "at_pair st' r c = at_pair st2 r c" using i(4)[rule_format, of r c] by simp
      show ?thesis
      proof (cases "row v = r \<and> col v = c")
        case True
        then show ?thesis using None eq s(4,5) by auto
      next
        case False
        then have "at_pair st2 r c = at_pair st r c" using s(6) by auto
        then show ?thesis using None eq False by auto
      qed
    qed
  qed
  moreover have "keygen st \<le> keygen st'" using s(3) i(3) by simp
  ultimately show ?case using i(1,2) by blast
qed

section \<open>Replace and delete-then-add\<close>

lemma idb_open_stores:
  assumes "image_map_store w = Some st" and "contains (indexNames st) IDX_ROW_COL"
  shows "stores (snd (idb_open ev w)) = stores w"
proof (cases "fst (idb_open ev w)")
  case (Inl e)
  then show ?thesis using idb_open_failed[of ev w e] by simp
next
  case (Inr db)
  then have ev: "ev = EngineProceeds"
    by (cases ev) (auto simp: idb_open_def split: if_splits)
  obtain w1 where o: "idb_open EngineProceeds w = (Inr db, w1)"
    using Inr ev by (cases "idb_open EngineProceeds w") auto
  have m: "map_of (stores w) IMAGE_MAP = Some st" using assms(1) by (simp add: image_map_store_def)
  have "onupgradeneeded (stores w) = ([], Inr (stores w))"
    using m assms(2) by (cases "stores w" rule: upgrade_cases) auto
  then have "stores w1 = stores w" using idb_open_succeeded(6)[OF o] by auto
  then show ?thesis using o ev by simp
qed

lemma getSingletonDB_stores:
  assumes "image_map_store w = Some st" and "contains (indexNames st) IDX_ROW_COL"
  shows "stores (snd (getSingletonDB run w)) = stores w"
proof -
  have r: "stores (snd (getSingletonDB_resume r w0)) = stores w" if s: "stores w0 = stores w" for r w0
  proof (cases r)
    case TimerWins
    then show ?thesis using s by (simp add: getSingletonDB_resume_def)
  next
    case (OpenSettles ev)
    obtain res w1 where o: "idb_open ev w0 = (res, w1)" by (cases "idb_open ev w0") auto
    have "image_map_store w0 = Some st" using assms(1) s by (simp add: image_map_store_def)
    from idb_open_stores[OF this assms(2), of ev] have s1: "stores w1 = stores w" using o s by simp
    have "stores (snd (getSingletonDB_resume r w0)) = stores w1"
      using OpenSettles o
      by (auto simp: getSingletonDB_resume_def stores_close split: sum.splits option.splits)
    then show ?thesis using s1 by simp
  qed
  have "stores (snd (getSingletonDB_enter w)) = stores w"
    by (auto simp: getSingletonDB_enter_def split: option.splits)
  then show ?thesis
    using r by (auto simp: getSingletonDB_def split: prod.splits entered.splits)
qed

lemma beginTransaction_ok:
  assumes "image_map_store w = Some st" and "wf_store st"
    and "beginTransaction run [IMAGE_MAP] mode w = (Inr tx, w1)"
  shows "tx_ok tx st" and "stores w1 = stores w"
proof -
  have i: "contains (indexNames st) IDX_ROW_COL" using assms(2) by (simp add: wf_store_def)
  obtain r where g: "getSingletonDB run w = (r, w1)"
    using assms(3) by (auto simp: beginTransaction_def split: prod.splits sum.splits)
  show s: "stores w1 = stores w" using getSingletonDB_stores[OF assms(1) i, of run] g by simp
  note d = db_transaction_objectStore[OF beginTransaction_db_transaction[OF assms(3)]]
  show "tx_ok tx st"
    using d(3,4,5) s assms(1) by (simp add: tx_ok_def image_map_store_def contains_def)
qed

lemma transaction2promise_resolved:
  assumes "transaction2promise tx (tx_outcome tx) w = (Inr u, w')"
  shows "tx_error tx = None" and "w' = w"
  using assms
  by (auto simp: transaction2promise_def tx_outcome_def split: option.splits)

lemma engine_finish_store:
  "tx_ok tx st \<Longrightarrow> image_map_store (engine_finish tx w) = Some st"
  by (simp add: tx_ok_def engine_finish_def image_map_store_def)

text \<open>What a committed upsert leaves, for each of the three.\<close>

lemma setImageMap_commit:
  assumes "image_map_store w = Some st" and "wf_store st"
    and "setImageMap run imageMaps w = (Inr u, w')"
  shows "\<exists>st'. image_map_store w' = Some st' \<and> wf_store st'
    \<and> (\<forall>r c. case last_with r c (as_array imageMaps) of
          None \<Rightarrow> at_pair st' r c = at_pair st r c
        | Some v \<Rightarrow> \<exists>k. at_pair st' r c = [\<lparr>skey = k, srow = r, scol = c, sdata = data v\<rparr>]
            \<and> (case id_of v of Some i \<Rightarrow> k = i | None \<Rightarrow> keygen st \<le> k \<and> k \<le> MAX_KEY))"
proof -
  obtain tx w1 where b: "beginTransaction run [IMAGE_MAP] Readwrite w = (Inr tx, w1)"
    using assms(3) by (auto simp: setImageMap_def split: prod.splits sum.splits)
  note ok = beginTransaction_ok[OF assms(1,2) b]
  obtain res tx1 w2 where l: "setImageMap_loop tx (as_array imageMaps) w1 = (res, tx1, w2)"
    by (cases "setImageMap_loop tx (as_array imageMaps) w1") auto
  have p: "transaction2promise tx1 (tx_outcome tx1) (engine_finish tx1 w2) = (Inr u, w')"
    using assms(3) b l tx_ok_objectStore[OF ok(1)]
    by (auto simp: setImageMap_def split: option.splits)
  note t = transaction2promise_resolved[OF p]
  from setImageMap_loop_effect[OF ok(1) assms(2) l t(1)] obtain st' where
    e: "tx_ok tx1 st'" "wf_store st'"
      "\<forall>r c. case last_with r c (as_array imageMaps) of
          None \<Rightarrow> at_pair st' r c = at_pair st r c
        | Some v \<Rightarrow> \<exists>k. at_pair st' r c = [\<lparr>skey = k, srow = r, scol = c, sdata = data v\<rparr>]
            \<and> (case id_of v of Some i \<Rightarrow> k = i | None \<Rightarrow> keygen st \<le> k \<and> k \<le> MAX_KEY)"
    by blast
  have "image_map_store w' = Some st'" using engine_finish_store[OF e(1)] t(2) by simp
  then show ?thesis using e(2,3) by blast
qed

lemma setImageMap2_commit:
  assumes "image_map_store w = Some st" and "wf_store st"
    and "setImageMap2 run imageMaps w = (Inr u, w')"
  shows "\<exists>st'. image_map_store w' = Some st' \<and> wf_store st'
    \<and> (\<forall>r c m. at_pair st r c = [m] \<longrightarrow>
          at_pair st' r c =
            [case last_with r c (as_array imageMaps) of None \<Rightarrow> m
             | Some v \<Rightarrow> \<lparr>skey = skey m, srow = r, scol = c, sdata = data v\<rparr>])"
proof -
  obtain tx w1 where b: "beginTransaction run [IMAGE_MAP] Readwrite w = (Inr tx, w1)"
    using assms(3) by (auto simp: setImageMap2_def split: prod.splits sum.splits)
  note ok = beginTransaction_ok[OF assms(1,2) b]
  obtain res tx1 w2 where l: "setImageMap2_loop tx (as_array imageMaps) w1 = (res, tx1, w2)"
    by (cases "setImageMap2_loop tx (as_array imageMaps) w1") auto
  have p: "transaction2promise tx1 (tx_outcome tx1) (engine_finish tx1 w2) = (Inr u, w')"
    using assms(3) b l tx_ok_objectStore[OF ok(1)]
    by (auto simp: setImageMap2_def split: option.splits)
  note t = transaction2promise_resolved[OF p]
  from setImageMap2_loop_effect[OF ok(1) assms(2) l t(1)] obtain st' where
    e: "tx_ok tx1 st'" "wf_store st'"
      "\<forall>r c m. at_pair st r c = [m] \<longrightarrow>
          at_pair st' r c =
            [case last_with r c (as_array imageMaps) of None \<Rightarrow> m
             | Some v \<Rightarrow> \<lparr>skey = skey m, srow = r, scol = c, sdata = data v\<rparr>]"
    by blast
  have "image_map_store w' = Some st'" using engine_finish_store[OF e(1)] t(2) by simp
  then show ?thesis using e(2,3) by blast
qed

lemma setImageMap3_commit:
  assumes "image_map_store w = Some st" and "wf_store st"
    and "setImageMap3 run imageMaps w = (Inr u, w')"
  shows "\<exists>st'. image_map_store w' = Some st' \<and> wf_store st'
    \<and> (\<forall>r c m. at_pair st r c = [m] \<longrightarrow>
          at_pair st' r c =
            [case last_with r c (as_array imageMaps) of None \<Rightarrow> m
             | Some v \<Rightarrow> \<lparr>skey = skey m, srow = r, scol = c, sdata = data v\<rparr>])"
proof -
  obtain tx w1 where b: "beginTransaction run [IMAGE_MAP] Readwrite w = (Inr tx, w1)"
    using assms(3) by (auto simp: setImageMap3_def split: prod.splits sum.splits)
  note ok = beginTransaction_ok[OF assms(1,2) b]
  from setImageMap3_lookups_ok[OF ok(1) assms(2), of "as_array imageMaps" w1] obtain tx1 where
    l: "setImageMap3_lookups tx (as_array imageMaps) w1 = (tasks_of st (as_array imageMaps), tx1, w1)"
    and ok1: "tx_ok tx1 st"
    by blast
  let ?tx2 = "setImageMap3_writes tx1 (tasks_of st (as_array imageMaps))"
  have p: "transaction2promise ?tx2 (tx_outcome ?tx2) (engine_finish ?tx2 w1) = (Inr u, w')"
    using assms(3) b l tx_ok_objectStore[OF ok(1)]
    by (auto simp: setImageMap3_def first_rejection_tasks_of Let_def split: prod.splits)
  note t = transaction2promise_resolved[OF p]
  have pu: "pairs_unique st" using assms(2) by (simp add: wf_store_def)
  from setImageMap3_writes_effect[OF ok1 assms(2) assms(2) keys_kept_refl[OF pu] t(1)]
  obtain st' where
    e: "tx_ok ?tx2 st'" "wf_store st'"
      "\<forall>r c m. at_pair st r c = [m] \<longrightarrow>
          at_pair st' r c =
            [case last_with r c (as_array imageMaps) of None \<Rightarrow> m
             | Some v \<Rightarrow> \<lparr>skey = skey m, srow = r, scol = c, sdata = data v\<rparr>]"
    by blast
  have "image_map_store w' = Some st'" using engine_finish_store[OF e(1)] t(2) by simp
  then show ?thesis using e(2,3) by blast
qed

lemma last_with_pair: "last_with r c xs = Some v \<Longrightarrow> row v = r \<and> col v = c \<and> v \<in> set xs"
  by (induction xs) (auto split: option.splits if_splits)

lemma ConstraintError_name: "name ConstraintError \<noteq> ''InvalidStateError''"
  by (simp add: ConstraintError_def DOMException_def)

lemmas upsert_eval = ConstraintError_name
  beginTransaction_def getSingletonDB_def getSingletonDB_enter_def isActive_def
  db_transaction_def contains_def objectStoreNames_def objectStore_def
  getImageMaps_in_def key_query_def isNil_def isNull_def isUndefined_def store_index_def
  getAll_request_def request2promise_def index_getAll_def to_ImageMap_def
  write_request_def exec_write_def store_add_def store_put_def store_delete_def
  store_record_def key_for_def has_key_def index_conflict_def MAX_KEY_def
  transaction2promise_def tx_outcome_def engine_finish_def as_array_def Let_def
  ex_world_def ex_store_def zero_world_def quick_def

lemma ex_setImageMap2:
  "setImageMap2 quick
     (Array [\<lparr>id_of = None, row = 0, col = 0, data = [2]\<rparr>,
             \<lparr>id_of = None, row = 0, col = 0, data = [3]\<rparr>]) ex_world
   = (Inr (), ex_world\<lparr>stores :=
        [(IMAGE_MAP, \<lparr>rows = [\<lparr>skey = 1, srow = 0, scol = 0, sdata = [3]\<rparr>], keygen = 2,
                       indexNames = [IDX_ROW_COL]\<rparr>)]\<rparr>)"
  by (simp add: setImageMap2_def setImageMap2_writes_def upsert_eval)

lemma ex_setImageMap3:
  "setImageMap3 quick
     (Array [\<lparr>id_of = None, row = 0, col = 0, data = [2]\<rparr>,
             \<lparr>id_of = None, row = 0, col = 0, data = [3]\<rparr>]) ex_world
   = (Inr (), ex_world\<lparr>stores :=
        [(IMAGE_MAP, \<lparr>rows = [\<lparr>skey = 1, srow = 0, scol = 0, sdata = [3]\<rparr>], keygen = 2,
                       indexNames = [IDX_ROW_COL]\<rparr>)]\<rparr>)"
  by (simp add: setImageMap3_def setImageMap3_write_def upsert_eval)

lemma ex_setImageMap:
  "setImageMap quick (Single \<lparr>id_of = Some 1, row = 0, col = 0, data = [2]\<rparr>) ex_world
   = (Inr (), ex_world\<lparr>stores :=
        [(IMAGE_MAP, \<lparr>rows = [\<lparr>skey = 1, srow = 0, scol = 0, sdata = [2]\<rparr>], keygen = 2,
                       indexNames = [IDX_ROW_COL]\<rparr>)]\<rparr>)"
  by (simp add: setImageMap_def setImageMap_writes_def upsert_eval)

lemma ex_setImageMap_fresh:
  "setImageMap quick (Single \<lparr>id_of = None, row = 0, col = 0, data = [2]\<rparr>) ex_world
   = (Inr (), ex_world\<lparr>stores :=
        [(IMAGE_MAP, \<lparr>rows = [\<lparr>skey = 2, srow = 0, scol = 0, sdata = [2]\<rparr>], keygen = 3,
                       indexNames = [IDX_ROW_COL]\<rparr>)]\<rparr>)"
  by (simp add: setImageMap_def setImageMap_writes_def upsert_eval)

text \<open>
  The stored key 0. The tests \<open>_imageMap && _imageMap.id\<close> of \<open>setImageMap\<close> and of
  \<open>setImageMap3\<close> read the key 0 as no key, where \<open>setImageMap2\<close> tests \<open>_imageMap\<close> alone:
  on the same store and record \<open>setImageMap2\<close> puts under the key 0 and commits, and the
  other two place an add that the index refuses. The two theorems below say nothing
  about that case.
\<close>

lemma zero_setImageMap2:
  "setImageMap2 quick (Single \<lparr>id_of = None, row = 0, col = 0, data = [2]\<rparr>) zero_world
   = (Inr (), zero_world\<lparr>stores :=
        [(IMAGE_MAP, \<lparr>rows = [\<lparr>skey = 0, srow = 0, scol = 0, sdata = [2]\<rparr>], keygen = 1,
                       indexNames = [IDX_ROW_COL]\<rparr>)]\<rparr>)"
  by (simp add: setImageMap2_def setImageMap2_writes_def upsert_eval)

lemma zero_setImageMap3:
  "setImageMap3 quick (Single \<lparr>id_of = None, row = 0, col = 0, data = [2]\<rparr>) zero_world
   = (Inl ConstraintError, zero_world)"
  by (simp add: setImageMap3_def setImageMap3_write_def upsert_eval)

lemma zero_setImageMap:
  "setImageMap quick (Single \<lparr>id_of = None, row = 0, col = 0, data = [2]\<rparr>) zero_world
   = (Inl ConstraintError, zero_world)"
  by (simp add: setImageMap_def setImageMap_writes_def upsert_eval)

lemma ex_store_facts:
  "image_map_store ex_world = Some ex_store" "wf_store ex_store"
  "\<lparr>skey = 1, srow = 0, scol = 0, sdata = [1]\<rparr> \<in> set (rows ex_store)"
  by (simp_all add: image_map_store_def wf_store_def pairs_unique_def keys_distinct_def
      keygen_ok_def contains_def MAX_KEY_def ex_world_def ex_store_def)

text \<open>
  Claim C2, as amended. Let \<open>m\<close> be a record of the store and \<open>v\<close> the last record of the
  batch with the row and column of \<open>m\<close>. If the transaction of \<open>setImageMap2\<close> or of
  \<open>setImageMap3\<close> commits, the store then holds exactly one record with that row and
  column: it keeps the \<open>id\<close> of \<open>m\<close>, and all its other fields, which are row, column and
  data, are those of \<open>v\<close>. The write placed for a record \<open>v\<close> whose lookup found \<open>m\<close> is a
  put of \<open>v\<close> itself with the \<open>id\<close> of \<open>m\<close>, so nothing but the \<open>id\<close> is taken from \<open>m\<close>
  (replace, not merge): in \<open>setImageMap2\<close> for every \<open>m\<close>, in \<open>setImageMap3\<close> for every \<open>m\<close>
  whose \<open>id\<close> is not 0.
\<close>

theorem C2_replace_keeps_id:
  assumes "image_map_store w = Some st" and "wf_store st" and "m \<in> set (rows st)"
    and "last_with (srow m) (scol m) (as_array imageMaps) = Some v"
  shows "(setImageMap2 run imageMaps w = (Inr (), w') \<longrightarrow>
           (\<exists>st'. image_map_store w' = Some st'
              \<and> at_pair st' (srow m) (scol m)
                  = [\<lparr>skey = skey m, srow = row v, scol = col v, sdata = data v\<rparr>]))
    \<and> (setImageMap3 run imageMaps w = (Inr (), w') \<longrightarrow>
           (\<exists>st'. image_map_store w' = Some st'
              \<and> at_pair st' (srow m) (scol m)
                  = [\<lparr>skey = skey m, srow = row v, scol = col v, sdata = data v\<rparr>]))
    \<and> setImageMap2_writes tx (to_ImageMap m # found) v
        = write_request tx IMAGE_MAP (Put (v\<lparr>id_of := Some (skey m)\<rparr>))
    \<and> (skey m \<noteq> 0 \<longrightarrow>
         setImageMap3_write tx (to_ImageMap m # found) v
           = write_request tx IMAGE_MAP (Put (v\<lparr>id_of := Some (skey m)\<rparr>)))"
proof -
  have pu: "pairs_unique st" using assms(2) by (simp add: wf_store_def)
  have a: "at_pair st (srow m) (scol m) = [m]" using at_pair_of_member[OF pu assms(3)] .
  have rc: "row v = srow m" "col v = scol m" using last_with_pair[OF assms(4)] by simp_all
  have 2: "\<exists>st'. image_map_store w' = Some st'
              \<and> at_pair st' (srow m) (scol m)
                  = [\<lparr>skey = skey m, srow = row v, scol = col v, sdata = data v\<rparr>]"
    if "setImageMap2 run imageMaps w = (Inr (), w')"
    using setImageMap2_commit[OF assms(1,2) that] a assms(4) rc by fastforce
  have 3: "\<exists>st'. image_map_store w' = Some st'
              \<and> at_pair st' (srow m) (scol m)
                  = [\<lparr>skey = skey m, srow = row v, scol = col v, sdata = data v\<rparr>]"
    if "setImageMap3 run imageMaps w = (Inr (), w')"
    using setImageMap3_commit[OF assms(1,2) that] a assms(4) rc by fastforce
  have 4: "setImageMap2_writes tx (to_ImageMap m # found) v
        = write_request tx IMAGE_MAP (Put (v\<lparr>id_of := Some (skey m)\<rparr>))"
    by (simp add: setImageMap2_writes_def id_of_to_ImageMap)
  have 5: "skey m \<noteq> 0 \<longrightarrow>
         setImageMap3_write tx (to_ImageMap m # found) v
           = write_request tx IMAGE_MAP (Put (v\<lparr>id_of := Some (skey m)\<rparr>))"
    by (simp add: setImageMap3_write_def id_of_to_ImageMap)
  show ?thesis using 2 3 4 5 by blast
qed

theorem C2_replace_keeps_id_witness:
  "\<exists>st'. image_map_store (snd (setImageMap2 quick
           (Array [\<lparr>id_of = None, row = 0, col = 0, data = [2]\<rparr>,
                   \<lparr>id_of = None, row = 0, col = 0, data = [3]\<rparr>]) ex_world)) = Some st'
      \<and> at_pair st' 0 0 = [\<lparr>skey = 1, srow = 0, scol = 0, sdata = [3]\<rparr>]"
proof -
  let ?b = "Array [\<lparr>id_of = None, row = 0, col = 0, data = [2]\<rparr>,
                   \<lparr>id_of = None, row = 0, col = 0, data = [3]\<rparr>]"
  let ?m = "\<lparr>skey = 1, srow = 0, scol = 0, sdata = [1]\<rparr>"
  have d: "last_with (srow ?m) (scol ?m) (as_array ?b)
      = Some \<lparr>id_of = None, row = 0, col = 0, data = [3]\<rparr>"
    by (simp add: as_array_def)
  have e: "setImageMap2 quick ?b ex_world = (Inr (), snd (setImageMap2 quick ?b ex_world))"
    by (simp add: ex_setImageMap2)
  from C2_replace_keeps_id[OF ex_store_facts d, of quick "snd (setImageMap2 quick ?b ex_world)"] e
  show ?thesis by simp
qed

text \<open>
  The claim as stated fails for the first of two records of a batch with the row and
  column of the stored record: \<open>setImageMap2\<close> and \<open>setImageMap3\<close> commit, and the stored
  record holds the data of the second record, not of the first.
\<close>

theorem C2_replace_keeps_id_counterexample:
  "setImageMap2 quick
     (Array [\<lparr>id_of = None, row = 0, col = 0, data = [2]\<rparr>,
             \<lparr>id_of = None, row = 0, col = 0, data = [3]\<rparr>]) ex_world
   = (Inr (), ex_world\<lparr>stores :=
        [(IMAGE_MAP, \<lparr>rows = [\<lparr>skey = 1, srow = 0, scol = 0, sdata = [3]\<rparr>], keygen = 2,
                       indexNames = [IDX_ROW_COL]\<rparr>)]\<rparr>)
   \<and> setImageMap3 quick
     (Array [\<lparr>id_of = None, row = 0, col = 0, data = [2]\<rparr>,
             \<lparr>id_of = None, row = 0, col = 0, data = [3]\<rparr>]) ex_world
   = (Inr (), ex_world\<lparr>stores :=
        [(IMAGE_MAP, \<lparr>rows = [\<lparr>skey = 1, srow = 0, scol = 0, sdata = [3]\<rparr>], keygen = 2,
                       indexNames = [IDX_ROW_COL]\<rparr>)]\<rparr>)
   \<and> sdata \<lparr>skey = 1, srow = 0, scol = 0, sdata = [3]\<rparr>
       \<noteq> data \<lparr>id_of = None, row = 0, col = 0, data = [2]\<rparr>"
  by (simp add: ex_setImageMap2 ex_setImageMap3)

text \<open>
  Claim C3, as amended. Let \<open>m\<close> be a record of the store and \<open>v\<close> the last record of the
  batch with the row and column of \<open>m\<close>, where \<open>v\<close> has no \<open>id\<close> of its own or another one
  than \<open>m\<close>. If the transaction of \<open>setImageMap\<close> commits, the store then holds exactly one
  record with that row and column: it has the row, column and data of \<open>v\<close>, and its \<open>id\<close>
  differs from that of \<open>m\<close>. The writes placed for a record \<open>v\<close> whose lookup found \<open>m\<close>,
  with an \<open>id\<close> that is not 0, are the delete of that \<open>id\<close> and then the add of \<open>v\<close>.
\<close>

theorem C3_delete_then_add:
  assumes "image_map_store w = Some st" and "wf_store st" and "m \<in> set (rows st)"
    and "last_with (srow m) (scol m) (as_array imageMaps) = Some v"
    and "id_of v \<noteq> Some (skey m)"
    and "setImageMap run imageMaps w = (Inr (), w')"
  shows "(\<exists>st' k. image_map_store w' = Some st'
            \<and> at_pair st' (srow m) (scol m)
                = [\<lparr>skey = k, srow = row v, scol = col v, sdata = data v\<rparr>]
            \<and> k \<noteq> skey m)
    \<and> (skey m \<noteq> 0 \<longrightarrow>
         tx_log (setImageMap_writes tx (to_ImageMap m # found) v)
           = tx_log tx @ [Delete (skey m), Add v])"
proof -
  have rc: "row v = srow m" "col v = scol m" using last_with_pair[OF assms(4)] by simp_all
  have kg: "min (skey m) MAX_KEY < keygen st"
    using assms(2,3) by (auto simp: wf_store_def keygen_ok_def list_all_iff)
  from setImageMap_commit[OF assms(1,2,6)] obtain st' where
    s: "image_map_store w' = Some st'"
      "\<forall>r c. case last_with r c (as_array imageMaps) of
          None \<Rightarrow> at_pair st' r c = at_pair st r c
        | Some v \<Rightarrow> \<exists>k. at_pair st' r c = [\<lparr>skey = k, srow = r, scol = c, sdata = data v\<rparr>]
            \<and> (case id_of v of Some i \<Rightarrow> k = i | None \<Rightarrow> keygen st \<le> k \<and> k \<le> MAX_KEY)"
    by blast
  from s(2)[rule_format, of "srow m" "scol m"] assms(4) obtain k where
    k: "at_pair st' (srow m) (scol m) = [\<lparr>skey = k, srow = srow m, scol = scol m, sdata = data v\<rparr>]"
      "case id_of v of Some i \<Rightarrow> k = i | None \<Rightarrow> keygen st \<le> k \<and> k \<le> MAX_KEY"
    by auto
  have "k \<noteq> skey m"
  proof (cases "id_of v")
    case None
    then have "keygen st \<le> k" "k \<le> MAX_KEY" using k(2) by simp_all
    then show ?thesis using kg by auto
  next
    case (Some i)
    then show ?thesis using k(2) assms(5) by auto
  qed
  then have 1: "\<exists>st' k. image_map_store w' = Some st'
            \<and> at_pair st' (srow m) (scol m)
                = [\<lparr>skey = k, srow = row v, scol = col v, sdata = data v\<rparr>]
            \<and> k \<noteq> skey m"
    using s(1) k(1) rc by auto
  have 2: "skey m \<noteq> 0 \<longrightarrow>
         tx_log (setImageMap_writes tx (to_ImageMap m # found) v)
           = tx_log tx @ [Delete (skey m), Add v]"
    by (simp add: setImageMap_writes_def id_of_to_ImageMap write_request_log)
  show ?thesis using 1 2 by blast
qed

theorem C3_delete_then_add_witness:
  "\<exists>st' k. image_map_store (snd (setImageMap quick
           (Single \<lparr>id_of = None, row = 0, col = 0, data = [2]\<rparr>) ex_world)) = Some st'
      \<and> at_pair st' 0 0 = [\<lparr>skey = k, srow = 0, scol = 0, sdata = [2]\<rparr>] \<and> k \<noteq> 1"
proof -
  let ?b = "Single \<lparr>id_of = None, row = 0, col = 0, data = [2]\<rparr>"
  let ?m = "\<lparr>skey = 1, srow = 0, scol = 0, sdata = [1]\<rparr>"
  have d: "last_with (srow ?m) (scol ?m) (as_array ?b)
      = Some \<lparr>id_of = None, row = 0, col = 0, data = [2]\<rparr>"
    by (simp add: as_array_def)
  have i: "id_of \<lparr>id_of = None, row = 0, col = 0, data = [2]\<rparr> \<noteq> Some (skey ?m)" by simp
  have e: "setImageMap quick ?b ex_world = (Inr (), snd (setImageMap quick ?b ex_world))"
    by (simp add: ex_setImageMap_fresh)
  from conjunct1[OF C3_delete_then_add[OF ex_store_facts d i e]]
  show ?thesis by simp
qed

text \<open>
  The claim as stated fails for a record that carries the \<open>id\<close> of the stored record
  with its row and column, as a record read from the store does: after the delete it is
  added under that very \<open>id\<close>, and the \<open>id\<close> after the commit is the \<open>id\<close> before.
\<close>

theorem C3_delete_then_add_counterexample:
  "setImageMap quick (Single \<lparr>id_of = Some 1, row = 0, col = 0, data = [2]\<rparr>) ex_world
   = (Inr (), ex_world\<lparr>stores :=
        [(IMAGE_MAP, \<lparr>rows = [\<lparr>skey = 1, srow = 0, scol = 0, sdata = [2]\<rparr>], keygen = 2,
                       indexNames = [IDX_ROW_COL]\<rparr>)]\<rparr>)
   \<and> stores ex_world
       = [(IMAGE_MAP, \<lparr>rows = [\<lparr>skey = 1, srow = 0, scol = 0, sdata = [1]\<rparr>], keygen = 2,
                        indexNames = [IDX_ROW_COL]\<rparr>)]"
  by (simp add: ex_setImageMap) (simp add: ex_world_def ex_store_def)

end
